theory Spec2Isabelle
  imports Complex_Main "HOL-Library.Sublist" "HOL-Library.Multiset" "HOL-Library.List_Lexorder"
begin

section \<open>Network request summaries: data model\<close>

text \<open>
  The development follows the module that turns request records and request events into
  ordered request summaries. A JavaScript string is modelled as a \<open>string\<close>, the list of
  its code units, each below 256 (the Latin-1 range, which holds ASCII). A JavaScript
  exception is a value \<open>Inl e\<close> of a sum type, \<open>undefined\<close> is \<open>None\<close>.
\<close>

text \<open>
  The exceptions of the pipeline: \<open>InvalidUrl\<close> is the \<open>TypeError\<close> that the \<open>URL\<close>
  constructor throws on a string that is not an absolute URL, \<open>InvalidPointFormat\<close> the
  failure of the point comparator, \<open>TypeError\<close> a property read on \<open>undefined\<close> or the
  spread of a value that is not iterable.
\<close>

datatype error = InvalidUrl | InvalidPointFormat | TypeError

definition bind :: "error + 'a \<Rightarrow> ('a \<Rightarrow> error + 'b) \<Rightarrow> error + 'b" where
  "bind m f = (case m of Inl e \<Rightarrow> Inl e | Inr x \<Rightarrow> f x)"

record Header =
  header_name :: string
  header_value :: string

record TimeStampedPoint =
  tp_point :: string
  tp_time :: real

datatype RequestEvent =
    RequestOpenEvent (requestUrl: string) (requestMethod: string) (requestHeaders: "Header list")
  | RequestBodyEvent
  | RequestResponseEvent (responseHeaders: "Header list") (responseStatus: int)
  | RequestResponseBodyEvent

datatype kind = Request | Request_body | Response | Response_body

fun event_kind :: "RequestEvent \<Rightarrow> kind" where
  "event_kind (RequestOpenEvent u m hs) = Request"
| "event_kind RequestBodyEvent = Request_body"
| "event_kind (RequestResponseEvent hs s) = Response"
| "event_kind RequestResponseBodyEvent = Response_body"

text \<open>
  The records of the protocol hold the fields that the module reads. An event also has
  the point at which it was observed, as the data model of the specification lists it;
  the module never reads it.
\<close>

record RequestEventInfo =
  ei_id :: string
  ei_point :: string
  ei_time :: real
  ei_event :: RequestEvent

record RequestInfo =
  ri_id :: string
  ri_point :: string
  ri_time :: real
  ri_triggerPoint :: "TimeStampedPoint option"

record RequestSummary =
  rs_domain :: string
  rs_documentType :: string
  rs_end :: real
  rs_hasResponseBody :: bool
  rs_hasRequestBody :: bool
  rs_id :: string
  rs_method :: string
  rs_name :: string
  rs_point :: TimeStampedPoint
  rs_queryParams :: "(string \<times> string) list"
  rs_triggerPoint :: "TimeStampedPoint option"
  rs_requestHeaders :: "Header list"
  rs_responseHeaders :: "Header list"
  rs_start :: real
  rs_status :: int
  rs_time :: real
  rs_type :: string
  rs_url :: string

section \<open>Header utilities\<close>

text \<open>
  \<open>String.prototype.toLowerCase\<close> on code units below 256: the upper-case letters are
  \<open>A\<close> to \<open>Z\<close> (65 to 90) and the Latin-1 letters 192 to 214 and 216 to 222; each has its
  lower-case letter 32 above it, and every other code unit is left as it is.
\<close>

definition is_upper :: "char \<Rightarrow> bool" where
  "is_upper c =
     ((65 \<le> (of_char c :: nat) \<and> (of_char c :: nat) \<le> 90)
      \<or> (192 \<le> (of_char c :: nat) \<and> (of_char c :: nat) \<le> 214)
      \<or> (216 \<le> (of_char c :: nat) \<and> (of_char c :: nat) \<le> 222))"

definition toLowerCase_char :: "char \<Rightarrow> char" where
  "toLowerCase_char c = (if is_upper c then char_of ((of_char c :: nat) + 32) else c)"

definition toLowerCase :: "string \<Rightarrow> string" where
  "toLowerCase s = map toLowerCase_char s"

text \<open>
  \<open>headers?.find(h => h.name.toLowerCase() === key)?.value\<close>: the header list may be
  \<open>undefined\<close>, and so may the result.
\<close>

definition findHeader :: "Header list option \<Rightarrow> string \<Rightarrow> string option" where
  "findHeader headers key =
     (case headers of
        None \<Rightarrow> None
      | Some hs \<Rightarrow> map_option header_value (find (\<lambda>h. toLowerCase (header_name h) = key) hs))"

text \<open>
  The regular expression \<open>/^(.*)[,;]/\<close>: anchored at the start, a greedy run of characters
  that are not line terminators, then one of \<open>,\<close> and \<open>;\<close>. The function returns the first
  group of the match. The run prefers to take the next character and gives it back only
  when the rest cannot match.
\<close>

definition is_line_terminator :: "char \<Rightarrow> bool" where
  "is_line_terminator c = (c = CHR 0x0A \<or> c = CHR 0x0D)"

fun match_chop :: "string \<Rightarrow> string option" where
  "match_chop [] = None"
| "match_chop (c # cs) =
     (case (if is_line_terminator c then None else match_chop cs) of
        Some g \<Rightarrow> Some (c # g)
      | None \<Rightarrow> if c = CHR '','' \<or> c = CHR '';'' then Some [] else None)"

text \<open>\<open>a || b\<close> on strings: the empty string is falsy, and so is \<open>undefined\<close>.\<close>

definition or_else :: "string option \<Rightarrow> string \<Rightarrow> string" where
  "or_else a b = (case a of None \<Rightarrow> b | Some s \<Rightarrow> if s = [] then b else s)"

definition getDocumentType :: "Header list \<Rightarrow> string" where
  "getDocumentType headers =
     (let contentType = or_else (findHeader (Some headers) ''content-type'') ''unknown''
      in or_else (match_chop contentType) contentType)"

section \<open>URL decomposition\<close>

text \<open>
  The \<open>URL\<close> class belongs to the platform. Its parser is a parameter \<open>parse\<close> of the
  model, which returns the three components that the module reads, or \<open>None\<close> where the
  constructor throws.
\<close>

record URL =
  url_host :: string
  url_pathname :: string
  url_searchParams :: "(string \<times> string) list"

definition new_URL :: "(string \<Rightarrow> URL option) \<Rightarrow> string \<Rightarrow> error + URL" where
  "new_URL parse url = (case parse url of None \<Rightarrow> Inl InvalidUrl | Some u \<Rightarrow> Inr u)"

text \<open>\<open>String.prototype.split\<close> with a one-character separator: \<open>"".split("/")\<close> is \<open>[""]\<close>.\<close>

fun split_on :: "char \<Rightarrow> string \<Rightarrow> string list" where
  "split_on c [] = [[]]"
| "split_on c (x # xs) =
     (if x = c then [] # split_on c xs
      else (case split_on c xs of [] \<Rightarrow> [[x]] | p # ps \<Rightarrow> (x # p) # ps))"

definition nth_opt :: "'a list \<Rightarrow> nat \<Rightarrow> 'a option" where
  "nth_opt xs n = (if n < length xs then Some (xs ! n) else None)"

definition pop :: "'a list \<Rightarrow> 'a option" where
  "pop xs = (if xs = [] then None else Some (last xs))"

definition host :: "(string \<Rightarrow> URL option) \<Rightarrow> string \<Rightarrow> error + string" where
  "host parse url = bind (new_URL parse url) (\<lambda>u. Inr (url_host u))"

definition name :: "(string \<Rightarrow> URL option) \<Rightarrow> string \<Rightarrow> error + string" where
  "name parse url =
     bind (new_URL parse url)
       (\<lambda>u. Inr (or_else (pop (filter (\<lambda>f. length f \<noteq> 0) (split_on (CHR ''/'') (url_pathname u)))) []))"

definition queryParams :: "(string \<Rightarrow> URL option) \<Rightarrow> string \<Rightarrow> error + (string \<times> string) list" where
  "queryParams parse url = bind (new_URL parse url) (\<lambda>u. Inr (url_searchParams u))"

section \<open>Grouping the events\<close>

text \<open>
  The accumulator of \<open>eventsByRequestId\<close> is a plain object. Reading \<open>obj[key]\<close> gives the
  own property when there is one, else the property that every object inherits from
  \<open>Object.prototype\<close> when the key is the name of one, else \<open>undefined\<close>. An inherited
  property is a function, or the prototype object for \<open>__proto__\<close>: a truthy value that
  is not iterable and has no own enumerable property.
\<close>

datatype 'a property = Own 'a | Inherited

definition inherited_names :: "string list" where
  "inherited_names =
     [''constructor'', ''__proto__'', ''toString'', ''toLocaleString'', ''valueOf'',
      ''hasOwnProperty'', ''isPrototypeOf'', ''propertyIsEnumerable'',
      ''__defineGetter__'', ''__defineSetter__'', ''__lookupGetter__'', ''__lookupSetter__'']"

definition get_property :: "(string \<rightharpoonup> 'a) \<Rightarrow> string \<Rightarrow> 'a property option" where
  "get_property obj key =
     (case obj key of
        Some v \<Rightarrow> Some (Own v)
      | None \<Rightarrow> if key \<in> set inherited_names then Some Inherited else None)"

text \<open>
  \<open>keyBy\<close> of lodash walks the collection from first to last and assigns each element
  under its key, so a later element replaces an earlier one with the same key; a
  collection that is \<open>undefined\<close> gives the empty object, and so does one that is a
  function or an object without own enumerable properties.
\<close>

definition assignValue :: "('a \<Rightarrow> 'k) \<Rightarrow> 'a \<Rightarrow> ('k \<rightharpoonup> 'a) \<Rightarrow> ('k \<rightharpoonup> 'a)" where
  "assignValue iteratee x result = result(iteratee x \<mapsto> x)"

definition keyBy :: "'a list property option \<Rightarrow> ('a \<Rightarrow> 'k) \<Rightarrow> ('k \<rightharpoonup> 'a)" where
  "keyBy collection iteratee =
     (case collection of
        None \<Rightarrow> Map.empty
      | Some Inherited \<Rightarrow> Map.empty
      | Some (Own xs) \<Rightarrow> fold (assignValue iteratee) xs Map.empty)"

definition eventsToMap ::
  "RequestEventInfo list property option \<Rightarrow> (kind \<rightharpoonup> RequestEventInfo)" where
  "eventsToMap events = keyBy events (\<lambda>e. event_kind (ei_event e))"

text \<open>
  \<open>...(x || [])\<close>: the elements of the array \<open>x\<close>, none when \<open>x\<close> is \<open>undefined\<close>, and a
  \<open>TypeError\<close> when \<open>x\<close> is an inherited property, which is truthy and not iterable.
\<close>

definition spread_or_empty :: "'a list property option \<Rightarrow> error + 'a list" where
  "spread_or_empty x =
     (case x of
        None \<Rightarrow> Inr []
      | Some (Own xs) \<Rightarrow> Inr xs
      | Some Inherited \<Rightarrow> Inl TypeError)"

text \<open>
  The callback of \<open>reduce\<close> in \<open>eventsByRequestId\<close>:
  \<open>acc[eventInfo.id] = [eventInfo, ...(acc[eventInfo.id] || [])]\<close>.
\<close>

definition addToBucket ::
  "RequestEventInfo \<Rightarrow> (string \<rightharpoonup> RequestEventInfo list)
     \<Rightarrow> error + (string \<rightharpoonup> RequestEventInfo list)" where
  "addToBucket eventInfo acc =
     (case spread_or_empty (get_property acc (ei_id eventInfo)) of
        Inl e \<Rightarrow> Inl e
      | Inr bucket \<Rightarrow> Inr (acc(ei_id eventInfo \<mapsto> eventInfo # bucket)))"

text \<open>\<open>Array.prototype.reduce\<close> with a callback that may throw: the first exception ends it.\<close>

fun reduce :: "('a \<Rightarrow> 'b \<Rightarrow> error + 'b) \<Rightarrow> 'a list \<Rightarrow> 'b \<Rightarrow> error + 'b" where
  "reduce f [] acc = Inr acc"
| "reduce f (x # xs) acc = (case f x acc of Inl e \<Rightarrow> Inl e | Inr acc' \<Rightarrow> reduce f xs acc')"

definition eventsByRequestId ::
  "RequestEventInfo list \<Rightarrow> error + (string \<rightharpoonup> RequestEventInfo list)" where
  "eventsByRequestId events = reduce addToBucket events Map.empty"

section \<open>Type filter\<close>

text \<open>
  A regular expression that is an alternation of literals, as \<open>/(woff|ttf)/\<close>, tested
  against a string: some alternative starts at some position of the string.
\<close>

fun regex_test :: "string list \<Rightarrow> string \<Rightarrow> bool" where
  "regex_test alts [] = list_ex (\<lambda>a. a = []) alts"
| "regex_test alts (c # cs) = (list_ex (\<lambda>a. prefix a (c # cs)) alts \<or> regex_test alts cs)"

text \<open>The callback of the last \<open>filter\<close>; the requested types are a set of strings.\<close>

definition type_matches :: "string set \<Rightarrow> RequestSummary \<Rightarrow> bool" where
  "type_matches types row =
     (if types = {} then True
      else if rs_type row \<in> types then True
      else if ''xhr'' \<in> types \<and> regex_test [''json''] (rs_type row) then True
      else if ''font'' \<in> types \<and> regex_test [''woff'', ''ttf''] (rs_type row) then True
      else if ''img'' \<in> types \<and> regex_test [''svg'', ''jpeg'', ''png'', ''gif''] (rs_type row) then True
      else False)"

section \<open>Point comparator and sorting\<close>

text \<open>
  Modelled from the spec: the function \<open>compareNumericStrings\<close> of \<open>protocol/utils\<close>, which
  the module imports. Section 4.1 of the specification: the arguments are strings of
  decimal digits; if the lengths differ the longer string is the greater; if they are
  equal the strings are compared lexicographically; an empty string or a string with a
  character that is not a digit fails with \<open>InvalidPointFormat\<close>.
\<close>

datatype comparison = Less | Equal | Greater

definition is_digit :: "char \<Rightarrow> bool" where
  "is_digit c = (48 \<le> (of_char c :: nat) \<and> (of_char c :: nat) \<le> 57)"

definition valid_point :: "string \<Rightarrow> bool" where
  "valid_point s = (s \<noteq> [] \<and> list_all is_digit s)"

fun lex_less :: "string \<Rightarrow> string \<Rightarrow> bool" where
  "lex_less [] [] = False"
| "lex_less [] (y # ys) = True"
| "lex_less (x # xs) [] = False"
| "lex_less (x # xs) (y # ys) =
     ((of_char x :: nat) < of_char y \<or> (x = y \<and> lex_less xs ys))"

definition compareNumericStrings :: "string \<Rightarrow> string \<Rightarrow> error + comparison" where
  "compareNumericStrings a b =
     (if \<not> valid_point a \<or> \<not> valid_point b then Inl InvalidPointFormat
      else if length a < length b then Inr Less
      else if length a > length b then Inr Greater
      else if lex_less a b then Inr Less
      else if lex_less b a then Inr Greater
      else Inr Equal)"

text \<open>
  \<open>Array.prototype.sort\<close> with a comparator: a stable sort, here by insertion. For a
  comparator that is a total preorder every stable sort returns the same list. An
  exception of the comparator leaves the sort.
\<close>

fun insert_by :: "('a \<Rightarrow> 'a \<Rightarrow> error + comparison) \<Rightarrow> 'a \<Rightarrow> 'a list \<Rightarrow> error + 'a list" where
  "insert_by cmp x [] = Inr [x]"
| "insert_by cmp x (y # ys) =
     (case cmp x y of
        Inl e \<Rightarrow> Inl e
      | Inr c \<Rightarrow>
          if c = Greater
          then (case insert_by cmp x ys of Inl e \<Rightarrow> Inl e | Inr zs \<Rightarrow> Inr (y # zs))
          else Inr (x # y # ys))"

fun sort_by :: "('a \<Rightarrow> 'a \<Rightarrow> error + comparison) \<Rightarrow> 'a list \<Rightarrow> error + 'a list" where
  "sort_by cmp [] = Inr []"
| "sort_by cmp (x # xs) =
     (case sort_by cmp xs of Inl e \<Rightarrow> Inl e | Inr ys \<Rightarrow> insert_by cmp x ys)"

section \<open>The pipeline\<close>

text \<open>\<open>Array.prototype.map\<close> with a callback that may throw: the first exception ends it.\<close>

fun mapM :: "('a \<Rightarrow> error + 'b) \<Rightarrow> 'a list \<Rightarrow> error + 'b list" where
  "mapM f [] = Inr []"
| "mapM f (x # xs) =
     (case f x of
        Inl e \<Rightarrow> Inl e
      | Inr y \<Rightarrow> (case mapM f xs of Inl e \<Rightarrow> Inl e | Inr ys \<Rightarrow> Inr (y # ys)))"

text \<open>A request record together with its \<open>events\<close> field, the per-kind map of its events.\<close>

type_synonym RequestWithEvents = "RequestInfo \<times> (kind \<rightharpoonup> RequestEventInfo)"

definition attachEvents ::
  "(string \<rightharpoonup> RequestEventInfo list) \<Rightarrow> RequestInfo \<Rightarrow> RequestWithEvents" where
  "attachEvents eventsMap r = (r, eventsToMap (get_property eventsMap (ri_id r)))"

definition isComplete :: "RequestWithEvents \<Rightarrow> bool" where
  "isComplete r = (snd r Request \<noteq> None \<and> snd r Response \<noteq> None)"

text \<open>
  \<open>documentType?.split("/")?.[1] || documentType\<close>: the text between the first and the
  second slash, or the whole document type when that is missing or empty.
\<close>

definition deriveType :: "string \<Rightarrow> string" where
  "deriveType documentType = or_else (nth_opt (split_on (CHR ''/'') documentType) 1) documentType"

text \<open>
  The callback of the second \<open>map\<close>. The fields of the object literal are evaluated in
  the order written, so \<open>host\<close>, \<open>name\<close> and \<open>queryParams\<close> run in this order and the first
  of them that throws ends the callback.
\<close>

definition toSummary :: "(string \<Rightarrow> URL option) \<Rightarrow> RequestWithEvents \<Rightarrow> error + RequestSummary" where
  "toSummary parse r =
     (case snd r Request of
        None \<Rightarrow> Inl TypeError
      | Some request \<Rightarrow>
     (case snd r Response of
        None \<Rightarrow> Inl TypeError
      | Some response \<Rightarrow>
          (let documentType = getDocumentType (responseHeaders (ei_event response));
               type = deriveType documentType
           in bind (host parse (requestUrl (ei_event request))) (\<lambda>domain.
              bind (name parse (requestUrl (ei_event request))) (\<lambda>nm.
              bind (queryParams parse (requestUrl (ei_event request))) (\<lambda>qs.
              Inr \<lparr> rs_domain = domain,
                    rs_documentType = documentType,
                    rs_end = ei_time response,
                    rs_hasResponseBody = (snd r Response_body \<noteq> None),
                    rs_hasRequestBody = (snd r Request_body \<noteq> None),
                    rs_id = ri_id (fst r),
                    rs_method = requestMethod (ei_event request),
                    rs_name = nm,
                    rs_point = \<lparr> tp_point = ri_point (fst r), tp_time = ri_time (fst r) \<rparr>,
                    rs_queryParams = qs,
                    rs_triggerPoint = ri_triggerPoint (fst r),
                    rs_requestHeaders = requestHeaders (ei_event request),
                    rs_responseHeaders = responseHeaders (ei_event response),
                    rs_start = ei_time request,
                    rs_status = responseStatus (ei_event response),
                    rs_time = ei_time response - ei_time request,
                    rs_type = type,
                    rs_url = requestUrl (ei_event request) \<rparr>))))))"

text \<open>
  The summaries before the type filter: the grouping of the events, the first \<open>map\<close>,
  the first \<open>filter\<close>, the second \<open>map\<close>.
\<close>

definition completeSummaries ::
  "(string \<Rightarrow> URL option) \<Rightarrow> RequestInfo list \<Rightarrow> RequestEventInfo list \<Rightarrow> error + RequestSummary list" where
  "completeSummaries parse requests events =
     bind (eventsByRequestId events)
       (\<lambda>eventsMap. mapM (toSummary parse) (filter isComplete (map (attachEvents eventsMap) requests)))"

definition comparePoints :: "RequestSummary \<Rightarrow> RequestSummary \<Rightarrow> error + comparison" where
  "comparePoints a b = compareNumericStrings (tp_point (rs_point a)) (tp_point (rs_point b))"

definition partialRequestsToCompleteSummaries ::
  "(string \<Rightarrow> URL option) \<Rightarrow> RequestInfo list \<Rightarrow> RequestEventInfo list \<Rightarrow> string set
     \<Rightarrow> error + RequestSummary list" where
  "partialRequestsToCompleteSummaries parse requests events types =
     bind (completeSummaries parse requests events)
       (\<lambda>summaries. sort_by comparePoints (filter (type_matches types) summaries))"

section \<open>A parser for plain URLs\<close>

text \<open>
  An instance of the parser parameter for running the pipeline on concrete inputs. It
  covers absolute URLs of the shape \<open>scheme://host/path?query#fragment\<close> in lower case,
  without user information, port or percent escapes, where the platform's parser returns
  the host, the path and the query pairs as they are written; a string without a scheme
  is rejected, as the constructor rejects it.
\<close>

fun split_first :: "char \<Rightarrow> string \<Rightarrow> (string \<times> string) option" where
  "split_first c [] = None"
| "split_first c (x # xs) =
     (if x = c then Some ([], xs)
      else (case split_first c xs of None \<Rightarrow> None | Some (a, b) \<Rightarrow> Some (x # a, b)))"

definition query_pairs :: "string \<Rightarrow> (string \<times> string) list" where
  "query_pairs q =
     map (\<lambda>p. case split_first (CHR ''='') p of None \<Rightarrow> (p, []) | Some kv \<Rightarrow> kv)
         (filter (\<lambda>p. p \<noteq> []) (split_on (CHR ''&'') q))"

definition is_path_end :: "char \<Rightarrow> bool" where
  "is_path_end c = (c = CHR ''?'' \<or> c = CHR ''#'')"

definition plain_url :: "string \<Rightarrow> URL option" where
  "plain_url s =
     (case split_first (CHR '':'') s of
        None \<Rightarrow> None
      | Some (scheme, rest) \<Rightarrow>
          if scheme = [] \<or> take 2 rest \<noteq> ''//'' then None
          else
            (let after = drop 2 rest;
                 authority = takeWhile (\<lambda>c. c \<noteq> CHR ''/'' \<and> \<not> is_path_end c) after;
                 rest1 = dropWhile (\<lambda>c. c \<noteq> CHR ''/'' \<and> \<not> is_path_end c) after;
                 path = takeWhile (\<lambda>c. \<not> is_path_end c) rest1;
                 rest2 = dropWhile (\<lambda>c. \<not> is_path_end c) rest1;
                 query = (case rest2 of
                            [] \<Rightarrow> []
                          | c # q \<Rightarrow> if c = CHR ''?'' then takeWhile (\<lambda>c. c \<noteq> CHR ''#'') q else [])
             in if authority = [] then None
                else Some \<lparr> url_host = authority,
                            url_pathname = (if path = [] then ''/'' else path),
                            url_searchParams = query_pairs query \<rparr>))"

section \<open>Concrete inputs\<close>

text \<open>
  The exchange of the end-to-end scenario: request \<open>1\<close> is opened and answered, request
  \<open>2\<close> is only opened. The events carry the points \<open>5\<close>, \<open>12\<close> and \<open>3\<close>.
\<close>

definition open_1 :: RequestEventInfo where
  "open_1 = \<lparr> ei_id = ''1'', ei_point = ''5'', ei_time = 100,
              ei_event = RequestOpenEvent ''https://a.test/x?y=1'' ''GET'' [] \<rparr>"

definition response_1 :: RequestEventInfo where
  "response_1 = \<lparr> ei_id = ''1'', ei_point = ''12'', ei_time = 250,
                  ei_event = RequestResponseEvent
                    [\<lparr> header_name = ''content-type'',
                       header_value = ''application/json; charset=utf-8'' \<rparr>] 200 \<rparr>"

definition open_2 :: RequestEventInfo where
  "open_2 = \<lparr> ei_id = ''2'', ei_point = ''3'', ei_time = 120,
              ei_event = RequestOpenEvent ''https://b.test/'' ''GET'' [] \<rparr>"

text \<open>A second request-open event for request \<open>1\<close>, with another URL.\<close>

definition reopen_1 :: RequestEventInfo where
  "reopen_1 = \<lparr> ei_id = ''1'', ei_point = ''7'', ei_time = 130,
                ei_event = RequestOpenEvent ''https://a.test/later'' ''POST'' [] \<rparr>"

definition request_of :: "string \<Rightarrow> string \<Rightarrow> RequestInfo" where
  "request_of i p = \<lparr> ri_id = i, ri_point = p, ri_time = 0, ri_triggerPoint = None \<rparr>"

text \<open>Equality of two strings up to the case of their letters.\<close>

definition same_ignoring_case :: "string \<Rightarrow> string \<Rightarrow> bool" where
  "same_ignoring_case a b = (toLowerCase a = toLowerCase b)"

definition some_headers :: "Header list" where
  "some_headers =
     [\<lparr> header_name = ''Accept'', header_value = ''*/*'' \<rparr>,
      \<lparr> header_name = ''Content-Type'', header_value = ''text/html'' \<rparr>,
      \<lparr> header_name = ''content-type'', header_value = ''text/plain'' \<rparr>]"

text \<open>
  Whether the event list holds an event of the given request id and kind, and whether an
  event is one of the two body events.
\<close>

definition has_kind :: "RequestEventInfo list \<Rightarrow> string \<Rightarrow> kind \<Rightarrow> bool" where
  "has_kind events i k = list_ex (\<lambda>e. ei_id e = i \<and> event_kind (ei_event e) = k) events"

definition is_body_kind :: "kind \<Rightarrow> bool" where
  "is_body_kind k = (k = Request_body \<or> k = Response_body)"

definition without_body_events :: "RequestEventInfo list \<Rightarrow> RequestEventInfo list" where
  "without_body_events events = filter (\<lambda>e. \<not> is_body_kind (event_kind (ei_event e))) events"

definition clear_body_flags :: "RequestSummary \<Rightarrow> RequestSummary" where
  "clear_body_flags row = row\<lparr> rs_hasResponseBody := False, rs_hasRequestBody := False \<rparr>"

text \<open>A completed exchange whose request-open event carries a string that is not a URL.\<close>

definition open_3 :: RequestEventInfo where
  "open_3 = \<lparr> ei_id = ''3'', ei_point = ''20'', ei_time = 300,
              ei_event = RequestOpenEvent ''not a url'' ''GET'' [] \<rparr>"

definition response_3 :: RequestEventInfo where
  "response_3 = \<lparr> ei_id = ''3'', ei_point = ''21'', ei_time = 310,
                  ei_event = RequestResponseEvent [] 200 \<rparr>"

definition body_1 :: RequestEventInfo where
  "body_1 = \<lparr> ei_id = ''1'', ei_point = ''13'', ei_time = 260, ei_event = RequestResponseBodyEvent \<rparr>"

text \<open>The summary that the callback builds from a parsed URL.\<close>

definition summaryOf :: "RequestWithEvents \<Rightarrow> RequestEventInfo \<Rightarrow> RequestEventInfo \<Rightarrow> URL \<Rightarrow> RequestSummary" where
  "summaryOf r request response u =
        \<lparr> rs_domain = url_host u,
              rs_documentType = getDocumentType (responseHeaders (ei_event response)),
              rs_end = ei_time response,
              rs_hasResponseBody = (snd r Response_body \<noteq> None),
              rs_hasRequestBody = (snd r Request_body \<noteq> None),
              rs_id = ri_id (fst r),
              rs_method = requestMethod (ei_event request),
              rs_name = or_else (pop (filter (\<lambda>f. length f \<noteq> 0) (split_on (CHR ''/'') (url_pathname u)))) [],
              rs_point = \<lparr> tp_point = ri_point (fst r), tp_time = ri_time (fst r) \<rparr>,
              rs_queryParams = url_searchParams u,
              rs_triggerPoint = ri_triggerPoint (fst r),
              rs_requestHeaders = requestHeaders (ei_event request),
              rs_responseHeaders = responseHeaders (ei_event response),
              rs_start = ei_time request,
              rs_status = responseStatus (ei_event response),
              rs_time = ei_time response - ei_time request,
              rs_type = deriveType (getDocumentType (responseHeaders (ei_event response))),
              rs_url = requestUrl (ei_event request) \<rparr>"

text \<open>The request records and the events of the scenario.\<close>

definition scenario_requests :: "string \<Rightarrow> string \<Rightarrow> RequestInfo list" where
  "scenario_requests p1 p2 = [request_of ''1'' p1, request_of ''2'' p2]"

definition scenario_events :: "RequestEventInfo list" where
  "scenario_events = [open_1, response_1, open_2]"


text \<open>
  The order that the comparator decides, in the words of the specification: a shorter
  point comes before a longer one, and points of equal length are in lexicographic
  order. \<open>point_value\<close> is the number that a string of decimal digits denotes, and a
  canonical point is a digit string without a leading zero.
\<close>

definition point_le :: "string \<Rightarrow> string \<Rightarrow> bool" where
  "point_le a b = (length a < length b \<or> (length a = length b \<and> \<not> lex_less b a))"

definition digit_value :: "char \<Rightarrow> nat" where
  "digit_value c = of_char c - 48"

definition point_value :: "string \<Rightarrow> nat" where
  "point_value s = foldl (\<lambda>n c. 10 * n + digit_value c) 0 s"

definition canonical_point :: "string \<Rightarrow> bool" where
  "canonical_point s =
     (case s of [] \<Rightarrow> False | c # cs \<Rightarrow> list_all is_digit s \<and> (cs = [] \<or> c \<noteq> CHR ''0''))"

definition summary_point :: "RequestSummary \<Rightarrow> string" where
  "summary_point row = tp_point (rs_point row)"

text \<open>A completed exchange for a request id, and three of them.\<close>

definition exchange :: "string \<Rightarrow> RequestEventInfo list" where
  "exchange i =
     [\<lparr> ei_id = i, ei_point = ''1'', ei_time = 10,
        ei_event = RequestOpenEvent ''https://a.test/x?y=1'' ''GET'' [] \<rparr>,
      \<lparr> ei_id = i, ei_point = ''2'', ei_time = 20,
        ei_event = RequestResponseEvent [] 200 \<rparr>]"

definition three_requests :: "RequestInfo list" where
  "three_requests = [request_of ''a'' ''100'', request_of ''b'' ''20'', request_of ''c'' ''9'']"

definition three_exchanges :: "RequestEventInfo list" where
  "three_exchanges = exchange ''a'' @ exchange ''b'' @ exchange ''c''"

text \<open>The character codes of a string, which the lexicographic comparison compares.\<close>

definition codes :: "string \<Rightarrow> nat list" where
  "codes s = map of_char s"

text \<open>
  Whether some event has an id that is the name of an inherited property, and the
  grouping that \<open>eventsByRequestId\<close> returns when none has: \<open>prependEvent\<close> is the
  assignment of the callback when the spread gives a list.
\<close>

definition has_inherited_id :: "RequestEventInfo list \<Rightarrow> bool" where
  "has_inherited_id events = list_ex (\<lambda>e. ei_id e \<in> set inherited_names) events"

definition prependEvent ::
  "RequestEventInfo \<Rightarrow> (string \<rightharpoonup> RequestEventInfo list) \<Rightarrow> (string \<rightharpoonup> RequestEventInfo list)" where
  "prependEvent eventInfo acc =
     acc(ei_id eventInfo \<mapsto>
           eventInfo # (case acc (ei_id eventInfo) of None \<Rightarrow> [] | Some bucket \<Rightarrow> bucket))"

definition buckets :: "RequestEventInfo list \<Rightarrow> (string \<rightharpoonup> RequestEventInfo list)" where
  "buckets events = fold prependEvent events Map.empty"

text \<open>An exchange whose request id is the name of an inherited property.\<close>

definition constructor_events :: "RequestEventInfo list" where
  "constructor_events =
     [\<lparr> ei_id = ''constructor'', ei_point = ''1'', ei_time = 10,
        ei_event = RequestOpenEvent ''https://a.test/x?y=1'' ''GET'' [] \<rparr>,
      \<lparr> ei_id = ''constructor'', ei_point = ''2'', ei_time = 20,
        ei_event = RequestResponseEvent [] 200 \<rparr>]"

section \<open>Facts about the grouping\<close>

lemma prependEvent_apply:
  "prependEvent e acc i =
     (if i = ei_id e then Some (e # (case acc i of None \<Rightarrow> [] | Some bucket \<Rightarrow> bucket)) else acc i)"
  by (simp add: prependEvent_def)

lemma assignValue_apply:
  "assignValue f x m k = (if k = f x then Some x else m k)"
  by (simp add: assignValue_def)

lemma fold_prependEvent:
  "fold prependEvent es acc i =
   (if filter (\<lambda>e. ei_id e = i) es = [] then acc i
    else Some (rev (filter (\<lambda>e. ei_id e = i) es) @ (case acc i of None \<Rightarrow> [] | Some bucket \<Rightarrow> bucket)))"
proof (induction es arbitrary: acc)
  case Nil
  show ?case by simp
next
  case (Cons e es)
  have "fold prependEvent (e # es) acc i = fold prependEvent es (prependEvent e acc) i"
    by simp
  also have "\<dots> =
    (if filter (\<lambda>e. ei_id e = i) es = [] then prependEvent e acc i
     else Some (rev (filter (\<lambda>e. ei_id e = i) es) @
                (case prependEvent e acc i of None \<Rightarrow> [] | Some bucket \<Rightarrow> bucket)))"
    by (rule Cons.IH)
  also have "\<dots> =
    (if filter (\<lambda>e. ei_id e = i) (e # es) = [] then acc i
     else Some (rev (filter (\<lambda>e. ei_id e = i) (e # es)) @
                (case acc i of None \<Rightarrow> [] | Some bucket \<Rightarrow> bucket)))"
    by (simp add: prependEvent_apply)
  finally show ?case .
qed

lemma buckets_eq:
  "buckets events i =
     (if filter (\<lambda>e. ei_id e = i) events = [] then None
      else Some (rev (filter (\<lambda>e. ei_id e = i) events)))"
  by (simp add: buckets_def fold_prependEvent)

lemma addToBucket_ok:
  assumes "ei_id e \<notin> set inherited_names"
  shows "addToBucket e acc = Inr (prependEvent e acc)"
proof (cases "acc (ei_id e)")
  case None
  with assms show ?thesis
    by (simp add: addToBucket_def spread_or_empty_def get_property_def prependEvent_def)
next
  case (Some bucket)
  then show ?thesis
    by (simp add: addToBucket_def spread_or_empty_def get_property_def prependEvent_def)
qed

lemma reduce_addToBucket_ok:
  "\<not> has_inherited_id es \<Longrightarrow> reduce addToBucket es acc = Inr (fold prependEvent es acc)"
proof (induction es arbitrary: acc)
  case Nil
  show ?case by simp
next
  case (Cons e es)
  from Cons.prems have e: "ei_id e \<notin> set inherited_names" and es: "\<not> has_inherited_id es"
    by (simp_all add: has_inherited_id_def)
  have "reduce addToBucket (e # es) acc = reduce addToBucket es (prependEvent e acc)"
    by (simp add: addToBucket_ok [OF e])
  also have "\<dots> = Inr (fold prependEvent es (prependEvent e acc))"
    using es by (rule Cons.IH)
  finally show ?case
    by simp
qed

lemma addToBucket_inherited:
  assumes "ei_id e \<in> set inherited_names" and "acc (ei_id e) = None"
  shows "addToBucket e acc = Inl TypeError"
  using assms by (simp add: addToBucket_def spread_or_empty_def get_property_def)

lemma reduce_addToBucket_inherited:
  assumes "has_inherited_id es" and "\<forall>n\<in>set inherited_names. acc n = None"
  shows "reduce addToBucket es acc = Inl TypeError"
  using assms
proof (induction es arbitrary: acc)
  case Nil
  then show ?case by (simp add: has_inherited_id_def)
next
  case (Cons e es)
  show ?case
  proof (cases "ei_id e \<in> set inherited_names")
    case True
    with Cons.prems(2) have "acc (ei_id e) = None"
      by simp
    with True have "addToBucket e acc = Inl TypeError"
      by (rule addToBucket_inherited)
    then show ?thesis
      by simp
  next
    case False
    with Cons.prems(1) have es: "has_inherited_id es"
      by (simp add: has_inherited_id_def)
    have "\<forall>n\<in>set inherited_names. prependEvent e acc n = None"
      using False Cons.prems(2) by (auto simp add: prependEvent_apply)
    with es have "reduce addToBucket es (prependEvent e acc) = Inl TypeError"
      by (rule Cons.IH)
    then show ?thesis
      by (simp add: addToBucket_ok [OF False])
  qed
qed

lemma eventsByRequestId_eq:
  "eventsByRequestId events
     = (if has_inherited_id events then Inl TypeError else Inr (buckets events))"
  unfolding eventsByRequestId_def buckets_def
  by (simp add: reduce_addToBucket_ok reduce_addToBucket_inherited)

lemma find_app: "find P (xs @ ys) = (case find P xs of None \<Rightarrow> find P ys | Some x \<Rightarrow> Some x)"
  by (induction xs) auto

lemma fold_assignValue:
  "fold (assignValue f) xs m k =
     (case find (\<lambda>x. f x = k) (rev xs) of None \<Rightarrow> m k | Some x \<Rightarrow> Some x)"
proof (induction xs arbitrary: m)
  case Nil
  show ?case by simp
next
  case (Cons x xs)
  have "fold (assignValue f) (x # xs) m k = fold (assignValue f) xs (assignValue f x m) k"
    by simp
  also have "\<dots> =
     (case find (\<lambda>x. f x = k) (rev xs) of None \<Rightarrow> assignValue f x m k | Some y \<Rightarrow> Some y)"
    by (rule Cons.IH)
  also have "\<dots> = (case find (\<lambda>x. f x = k) (rev (x # xs)) of None \<Rightarrow> m k | Some y \<Rightarrow> Some y)"
    by (auto simp add: assignValue_apply find_app split: option.splits)
  finally show ?case .
qed

lemma find_filter: "find Q (filter P xs) = find (\<lambda>x. P x \<and> Q x) xs"
  by (induction xs) auto

lemma find_None_filter: "filter P xs = [] \<Longrightarrow> find (\<lambda>x. P x \<and> Q x) xs = None"
  by (induction xs) (auto split: if_splits)

lemma eventsToMap_grouped:
  "eventsToMap (get_property (buckets events) i) k =
     find (\<lambda>e. ei_id e = i \<and> event_kind (ei_event e) = k) events"
proof (cases "filter (\<lambda>e. ei_id e = i) events = []")
  case True
  then have "eventsToMap (get_property (buckets events) i) k = None"
    by (simp add: eventsToMap_def keyBy_def get_property_def buckets_eq)
  with True show ?thesis
    by (simp add: find_None_filter)
next
  case False
  then have "get_property (buckets events) i = Some (Own (rev (filter (\<lambda>e. ei_id e = i) events)))"
    by (simp add: get_property_def buckets_eq)
  then show ?thesis
    by (simp add: eventsToMap_def keyBy_def fold_assignValue find_filter split: option.splits)
qed

lemma filter_id_empty_iff: "filter (\<lambda>e. ei_id e = i) events = [] \<longleftrightarrow> i \<notin> ei_id ` set events"
  by (auto simp add: filter_empty_conv)

section \<open>Event grouper\<close>

text \<open>
  C3, as the code has it: when no event id is the name of an inherited property,
  \<open>eventsByRequestId\<close> returns, and since it puts each event in front of its bucket, the
  bucket of a request id holds the events of that id in the reverse of their input
  order; an id without events has no bucket.
\<close>

theorem eventsByRequestId_reverses_bucket:
  assumes "\<not> has_inherited_id events"
  shows "\<exists>eventsMap. eventsByRequestId events = Inr eventsMap
    \<and> (\<forall>i. eventsMap i =
          (if i \<in> ei_id ` set events then Some (rev (filter (\<lambda>e. ei_id e = i) events))
           else None))"
  using assms by (simp add: eventsByRequestId_eq buckets_eq filter_id_empty_iff)

theorem eventsByRequestId_reverses_bucket_witness:
  "\<not> has_inherited_id [open_1, open_2, response_1]
   \<and> (\<exists>eventsMap. eventsByRequestId [open_1, open_2, response_1] = Inr eventsMap
        \<and> eventsMap ''1'' = Some [response_1, open_1]
        \<and> eventsMap ''2'' = Some [open_2]
        \<and> eventsMap ''3'' = None)"
proof -
  have ids: "\<not> has_inherited_id [open_1, open_2, response_1]"
    by (simp add: has_inherited_id_def inherited_names_def open_1_def open_2_def response_1_def)
  from eventsByRequestId_reverses_bucket [OF ids]
  obtain eventsMap where m: "eventsByRequestId [open_1, open_2, response_1] = Inr eventsMap"
    and all: "\<forall>i. eventsMap i =
          (if i \<in> ei_id ` set [open_1, open_2, response_1]
           then Some (rev (filter (\<lambda>e. ei_id e = i) [open_1, open_2, response_1]))
           else None)"
    by (elim exE conjE)
  have "eventsMap ''1'' = Some [response_1, open_1]" "eventsMap ''2'' = Some [open_2]"
    "eventsMap ''3'' = None"
    by (simp_all add: all open_1_def open_2_def response_1_def)
  with ids m show ?thesis
    by (intro conjI exI [of _ eventsMap])
qed

text \<open>
  C3 as stated fails: for the request-open event followed by the response event of
  request \<open>1\<close> the bucket is the response event followed by the request-open event.
\<close>

theorem eventsByRequestId_order_counterexample:
  "map_sum id (\<lambda>eventsMap. eventsMap ''1'') (eventsByRequestId [open_1, response_1])
     = Inr (Some [response_1, open_1])
   \<and> [response_1, open_1] \<noteq> filter (\<lambda>e. ei_id e = ''1'') [open_1, response_1]"
proof -
  have "\<not> has_inherited_id [open_1, response_1]"
    by (simp add: has_inherited_id_def inherited_names_def open_1_def response_1_def)
  then show ?thesis
    by (simp add: eventsByRequestId_eq buckets_eq open_1_def response_1_def)
qed

text \<open>
  C2, as the code has it: when no event id is the name of an inherited property, the
  representative of a kind in the bucket of a request id is the event of that id and
  kind that comes first in the input sequence. The bucket is in reverse input order and
  \<open>keyBy\<close> keeps the last element of each key.
\<close>

theorem representative_is_earliest:
  assumes "events = before @ e # after"
    and "ei_id e = i" and "event_kind (ei_event e) = k"
    and "\<forall>x\<in>set before. \<not> (ei_id x = i \<and> event_kind (ei_event x) = k)"
    and "\<not> has_inherited_id events"
  shows "\<exists>eventsMap. eventsByRequestId events = Inr eventsMap
            \<and> eventsToMap (get_property eventsMap i) k = Some e"
proof -
  have "find (\<lambda>x. ei_id x = i \<and> event_kind (ei_event x) = k) before = None"
    using assms(4) by (simp add: find_None_iff)
  then have "eventsToMap (get_property (buckets events) i) k = Some e"
    using assms(1-3) by (simp add: eventsToMap_grouped find_app)
  then show ?thesis
    using assms(5) by (simp add: eventsByRequestId_eq)
qed

theorem representative_is_earliest_witness:
  "\<exists>eventsMap. eventsByRequestId [open_2, open_1, response_1, reopen_1] = Inr eventsMap
     \<and> eventsToMap (get_property eventsMap ''1'') Request = Some open_1"
  by (rule representative_is_earliest [where before = "[open_2]" and after = "[response_1, reopen_1]"])
     (simp_all add: open_1_def open_2_def response_1_def reopen_1_def has_inherited_id_def
        inherited_names_def)

text \<open>
  C2 as stated fails: of two request-open events of request \<open>1\<close> the representative is
  the first one, not the later one.
\<close>

theorem later_event_wins_counterexample:
  "map_sum id (\<lambda>eventsMap. eventsToMap (get_property eventsMap ''1'') Request)
     (eventsByRequestId [open_1, reopen_1]) = Inr (Some open_1)
   \<and> open_1 \<noteq> reopen_1"
proof -
  have "\<not> has_inherited_id [open_1, reopen_1]"
    by (simp add: has_inherited_id_def inherited_names_def open_1_def reopen_1_def)
  then show ?thesis
    by (simp add: eventsByRequestId_eq eventsToMap_grouped open_1_def reopen_1_def)
qed

section \<open>Header lookup and document type\<close>

lemma toLowerCase_char_not_upper: "\<not> is_upper (toLowerCase_char c)"
proof (cases "is_upper c")
  case True
  then have "(of_char c :: nat) + 32 < 256"
    unfolding is_upper_def by linarith
  then have "(of_char (char_of ((of_char c :: nat) + 32)) :: nat) = of_char c + 32"
    by simp
  moreover have "\<not> ((65 \<le> (of_char c :: nat) + 32 \<and> (of_char c :: nat) + 32 \<le> 90)
      \<or> (192 \<le> (of_char c :: nat) + 32 \<and> (of_char c :: nat) + 32 \<le> 214)
      \<or> (216 \<le> (of_char c :: nat) + 32 \<and> (of_char c :: nat) + 32 \<le> 222))"
    using True unfolding is_upper_def by linarith
  ultimately have "\<not> is_upper (char_of ((of_char c :: nat) + 32))"
    unfolding is_upper_def by simp
  with True show ?thesis
    by (simp add: toLowerCase_char_def)
next
  case False
  then show ?thesis by (simp add: toLowerCase_char_def)
qed

lemma toLowerCase_no_upper: "c \<in> set (toLowerCase s) \<Longrightarrow> \<not> is_upper c"
  by (auto simp add: toLowerCase_def toLowerCase_char_not_upper)

lemma findHeader_upper_key:
  assumes "list_ex is_upper key"
  shows "findHeader (Some hs) key = None"
proof -
  have "\<And>h :: Header. toLowerCase (header_name h) \<noteq> key"
    using assms toLowerCase_no_upper by (auto simp add: list_ex_iff)
  then show ?thesis
    by (simp add: findHeader_def find_None_iff)
qed

lemma findHeader_lower_key:
  assumes "\<not> list_ex is_upper key"
  shows "findHeader (Some hs) key
           = map_option header_value (find (\<lambda>h. same_ignoring_case (header_name h) key) hs)"
proof -
  have "toLowerCase key = key"
    using assms by (simp add: toLowerCase_def toLowerCase_char_def list_ex_iff map_idI)
  then show ?thesis
    by (simp add: findHeader_def same_ignoring_case_def)
qed

lemma findHeader_first_match:
  assumes "hs = before @ h # after" and "toLowerCase (header_name h) = key"
    and "\<forall>x\<in>set before. toLowerCase (header_name x) \<noteq> key"
  shows "findHeader (Some hs) key = Some (header_value h)"
proof -
  have "find (\<lambda>h. toLowerCase (header_name h) = key) before = None"
    using assms(3) by (simp add: find_None_iff)
  then show ?thesis
    using assms(1,2) by (simp add: findHeader_def find_app)
qed

lemma findHeader_no_match:
  "\<forall>x\<in>set hs. toLowerCase (header_name x) \<noteq> key \<Longrightarrow> findHeader (Some hs) key = None"
  by (simp add: findHeader_def find_None_iff)

text \<open>
  C4, as the code has it: \<open>findHeader\<close> lower-cases the stored name only and compares it
  with the key as supplied. For a key without upper-case letters this is the match up to
  case; a key with an upper-case letter, ASCII or Latin-1, matches no header. The result is the value of
  the first header that matches, and \<open>undefined\<close> when none does or when there is no
  header list.
\<close>

theorem findHeader_lowercases_name_only:
  "findHeader None key = None
   \<and> (list_ex is_upper key \<longrightarrow> findHeader (Some hs) key = None)
   \<and> (\<not> list_ex is_upper key \<longrightarrow>
        findHeader (Some hs) key
          = map_option header_value (find (\<lambda>h. same_ignoring_case (header_name h) key) hs))
   \<and> (\<forall>before h after.
        hs = before @ h # after \<and> toLowerCase (header_name h) = key
        \<and> (\<forall>x\<in>set before. toLowerCase (header_name x) \<noteq> key)
        \<longrightarrow> findHeader (Some hs) key = Some (header_value h))
   \<and> ((\<forall>x\<in>set hs. toLowerCase (header_name x) \<noteq> key) \<longrightarrow> findHeader (Some hs) key = None)"
  using findHeader_upper_key findHeader_lower_key findHeader_first_match findHeader_no_match
  by (simp add: findHeader_def)

theorem findHeader_lowercases_name_only_witness:
  "\<not> list_ex is_upper ''content-type''
   \<and> findHeader (Some some_headers) ''content-type'' = Some ''text/html''
   \<and> list_ex is_upper ''Content-Type''
   \<and> findHeader (Some some_headers) ''Content-Type'' = None
   \<and> findHeader (Some [\<lparr> header_name = [CHR 0xC0], header_value = ''v'' \<rparr>]) [CHR 0xE0] = Some ''v''
   \<and> findHeader (Some [\<lparr> header_name = [CHR 0xC0], header_value = ''v'' \<rparr>]) [CHR 0xC0] = None"
proof -
  have latin: "\<not> list_ex is_upper [CHR 0xE0]" "list_ex is_upper [CHR 0xC0]"
    "map_option header_value
      (find (\<lambda>h. same_ignoring_case (header_name h) [CHR 0xE0])
         [\<lparr> header_name = [CHR 0xC0], header_value = ''v'' \<rparr>]) = Some ''v''"
    by code_simp+
  from findHeader_lowercases_name_only
    [of "[CHR 0xE0]" "[\<lparr> header_name = [CHR 0xC0], header_value = ''v'' \<rparr>]"] latin(1)
  have "findHeader (Some [\<lparr> header_name = [CHR 0xC0], header_value = ''v'' \<rparr>]) [CHR 0xE0]
          = map_option header_value
      (find (\<lambda>h. same_ignoring_case (header_name h) [CHR 0xE0])
         [\<lparr> header_name = [CHR 0xC0], header_value = ''v'' \<rparr>])"
    by blast
  then have l1: "findHeader (Some [\<lparr> header_name = [CHR 0xC0], header_value = ''v'' \<rparr>]) [CHR 0xE0]
          = Some ''v''"
    by (simp only: latin(3))
  from findHeader_lowercases_name_only
    [of "[CHR 0xC0]" "[\<lparr> header_name = [CHR 0xC0], header_value = ''v'' \<rparr>]"] latin(2)
  have l2: "findHeader (Some [\<lparr> header_name = [CHR 0xC0], header_value = ''v'' \<rparr>]) [CHR 0xC0] = None"
    by blast
  have lower: "\<not> list_ex is_upper ''content-type''"
    by code_simp
  have upper: "list_ex is_upper ''Content-Type''"
    by code_simp
  have found: "map_option header_value
      (find (\<lambda>h. same_ignoring_case (header_name h) ''content-type'') some_headers)
        = Some ''text/html''"
    by code_simp
  from findHeader_lowercases_name_only [of "''content-type''" some_headers] lower
  have "findHeader (Some some_headers) ''content-type''
          = map_option header_value
              (find (\<lambda>h. same_ignoring_case (header_name h) ''content-type'') some_headers)"
    by blast
  moreover from findHeader_lowercases_name_only [of "''Content-Type''" some_headers] upper
  have "findHeader (Some some_headers) ''Content-Type'' = None"
    by blast
  ultimately have "findHeader (Some some_headers) ''content-type'' = Some ''text/html''"
    and "findHeader (Some some_headers) ''Content-Type'' = None"
    using found by simp_all
  with lower upper l1 l2 show ?thesis
    by (intro conjI)
qed

text \<open>
  C4 as stated fails: with the key \<open>Content-Type\<close> the header of that very name is not
  found, while the key \<open>content-type\<close> finds it.
\<close>

theorem findHeader_key_case_counterexample:
  "findHeader (Some [\<lparr> header_name = ''Content-Type'', header_value = ''text/html'' \<rparr>]) ''Content-Type'' = None
   \<and> findHeader (Some [\<lparr> header_name = ''Content-Type'', header_value = ''text/html'' \<rparr>]) ''content-type''
       = Some ''text/html''"
  by code_simp

text \<open>
  C9: on a content type with two parameters the code removes the last parameter only.
  The greedy group of \<open>/^(.*)[,;]/\<close> runs up to the last delimiter, so the result is not
  the bare MIME type \<open>text/html\<close>. A single parameter is removed, and without a
  content-type header the result is \<open>unknown\<close>.
\<close>

theorem getDocumentType_keeps_inner_parameters:
  "getDocumentType [\<lparr> header_name = ''content-type'',
                      header_value = ''text/html; charset=utf-8; boundary=x'' \<rparr>]
     = ''text/html; charset=utf-8''
   \<and> getDocumentType [\<lparr> header_name = ''Content-Type'',
                        header_value = ''application/json; charset=utf-8'' \<rparr>]
     = ''application/json''
   \<and> getDocumentType [\<lparr> header_name = ''accept'', header_value = ''*/*'' \<rparr>] = ''unknown''"
  by code_simp

section \<open>Facts about the pipeline\<close>

lemma has_kind_find:
  "has_kind events i k \<longleftrightarrow> find (\<lambda>e. ei_id e = i \<and> event_kind (ei_event e) = k) events \<noteq> None"
  by (auto simp add: has_kind_def list_ex_iff find_None_iff)

lemma attached_lookup:
  "snd (attachEvents (buckets events) r) k
     = find (\<lambda>e. ei_id e = ri_id r \<and> event_kind (ei_event e) = k) events"
  by (simp add: attachEvents_def eventsToMap_grouped)

lemma attached_fst: "fst (attachEvents m r) = r"
  by (simp add: attachEvents_def)

lemma isComplete_attached:
  "isComplete (attachEvents (buckets events) r)
     \<longleftrightarrow> has_kind events (ri_id r) Request \<and> has_kind events (ri_id r) Response"
  by (simp add: isComplete_def attached_lookup has_kind_find)

lemma find_SomeD: "find P xs = Some x \<Longrightarrow> x \<in> set xs \<and> P x"
  by (induction xs) (auto split: if_splits)

lemma mapM_Inr_D: "mapM f xs = Inr ys \<Longrightarrow> list_all2 (\<lambda>x y. f x = Inr y) xs ys"
  by (induction xs arbitrary: ys) (auto split: sum.splits)

lemma mapM_Inl:
  assumes "x \<in> set xs" and "f x = Inl e"
    and all: "\<And>y e'. y \<in> set xs \<Longrightarrow> f y = Inl e' \<Longrightarrow> e' = e"
  shows "mapM f xs = Inl e"
  using assms(1) all
proof (induction xs)
  case Nil
  then show ?case by simp
next
  case (Cons a xs)
  show ?case
  proof (cases "f a")
    case (Inl e')
    have "e' = e"
      by (rule Cons.prems(2) [of a]) (simp_all add: Inl)
    then show ?thesis
      by (simp add: Inl)
  next
    case (Inr y)
    have "x \<noteq> a"
      using Inr assms(2) by auto
    then have "x \<in> set xs"
      using Cons.prems(1) by simp
    moreover have "\<And>y e'. y \<in> set xs \<Longrightarrow> f y = Inl e' \<Longrightarrow> e' = e"
      by (rule Cons.prems(2)) simp_all
    ultimately have "mapM f xs = Inl e"
      by (rule Cons.IH)
    then show ?thesis
      by (simp add: Inr)
  qed
qed


lemma bind_Inl: "bind (Inl e) f = Inl e"
  by (simp add: bind_def)

lemma bind_Inr: "bind (Inr x) f = f x"
  by (simp add: bind_def)

lemma completeSummaries_eq:
  "completeSummaries parse requests events
     = (if has_inherited_id events then Inl TypeError
        else mapM (toSummary parse)
               (filter isComplete (map (attachEvents (buckets events)) requests)))"
  by (simp add: completeSummaries_def eventsByRequestId_eq bind_Inl bind_Inr)

lemma completeSummaries_Inr_no_inherited:
  "completeSummaries parse requests events = Inr rows \<Longrightarrow> \<not> has_inherited_id events"
  by (auto simp add: completeSummaries_eq)

lemma has_inherited_id_without_body:
  "\<not> has_inherited_id events \<Longrightarrow> \<not> has_inherited_id (without_body_events events)"
  by (auto simp add: has_inherited_id_def without_body_events_def list_ex_iff)

lemma toSummary_None:
  assumes "snd r Request = Some request" and "snd r Response = Some response"
    and "parse (requestUrl (ei_event request)) = None"
  shows "toSummary parse r = Inl InvalidUrl"
  using assms
  by (simp add: toSummary_def host_def new_URL_def bind_def)

lemma toSummary_Some:
  assumes "snd r Request = Some request" and "snd r Response = Some response"
    and "parse (requestUrl (ei_event request)) = Some u"
  shows "toSummary parse r = Inr (summaryOf r request response u)"
  using assms
  by (simp add: toSummary_def host_def name_def queryParams_def new_URL_def bind_def Let_def
      summaryOf_def)

lemma toSummary_complete:
  assumes "isComplete r"
  shows "\<exists>request response.
           snd r Request = Some request \<and> snd r Response = Some response \<and>
           toSummary parse r =
             (case parse (requestUrl (ei_event request)) of
                None \<Rightarrow> Inl InvalidUrl
              | Some u \<Rightarrow> Inr (summaryOf r request response u))"
proof -
  from assms obtain request response
    where rr: "snd r Request = Some request" "snd r Response = Some response"
    by (auto simp add: isComplete_def)
  show ?thesis
  proof (cases "parse (requestUrl (ei_event request))")
    case None
    with rr show ?thesis by (simp add: toSummary_None)
  next
    case (Some u)
    with rr show ?thesis by (simp add: toSummary_Some)
  qed
qed

lemma toSummary_complete_Inl:
  assumes "isComplete r" and "toSummary parse r = Inl e"
  shows "e = InvalidUrl"
  using toSummary_complete [OF assms(1), of parse] assms(2)
  by (auto split: option.splits)

lemma toSummary_Inr_fields:
  assumes "toSummary parse r = Inr row"
  shows "rs_id row = ri_id (fst r)"
    and "tp_point (rs_point row) = ri_point (fst r)"
    and "rs_hasRequestBody row = (snd r Request_body \<noteq> None)"
    and "rs_hasResponseBody row = (snd r Response_body \<noteq> None)"
proof -
  from assms obtain request where a: "snd r Request = Some request"
    by (cases "snd r Request") (simp_all add: toSummary_def)
  from assms a obtain response where b: "snd r Response = Some response"
    by (cases "snd r Response") (simp_all add: toSummary_def)
  from assms a b obtain u where u: "parse (requestUrl (ei_event request)) = Some u"
    by (cases "parse (requestUrl (ei_event request))") (simp_all add: toSummary_None)
  have "toSummary parse r = Inr (summaryOf r request response u)"
    using a b u by (rule toSummary_Some)
  then have row: "row = summaryOf r request response u"
    using assms by simp
  show "rs_id row = ri_id (fst r)" by (simp add: row summaryOf_def)
  show "tp_point (rs_point row) = ri_point (fst r)" by (simp add: row summaryOf_def)
  show "rs_hasRequestBody row = (snd r Request_body \<noteq> None)" by (simp add: row summaryOf_def)
  show "rs_hasResponseBody row = (snd r Response_body \<noteq> None)" by (simp add: row summaryOf_def)
qed

lemma list_all2_map_eq:
  "list_all2 (\<lambda>x y. g y = h x) xs ys \<Longrightarrow> map g ys = map h xs"
  by (induction rule: list_all2_induct) auto

lemma complete_attached_list:
  "map fst (filter isComplete (map (attachEvents (buckets events)) requests))
     = filter (\<lambda>r. has_kind events (ri_id r) Request \<and> has_kind events (ri_id r) Response) requests"
  by (induction requests) (auto simp add: isComplete_attached attached_fst)

lemma completeSummaries_Inr_D:
  assumes "completeSummaries parse requests events = Inr rows"
  shows "list_all2 (\<lambda>r row. toSummary parse r = Inr row)
           (filter isComplete (map (attachEvents (buckets events)) requests)) rows"
proof -
  have "\<not> has_inherited_id events"
    using assms by (rule completeSummaries_Inr_no_inherited)
  with assms show ?thesis
    by (simp add: completeSummaries_eq mapM_Inr_D)
qed

lemma completeSummaries_ids:
  assumes "completeSummaries parse requests events = Inr rows"
  shows "map rs_id rows
     = map ri_id (filter (\<lambda>r. has_kind events (ri_id r) Request \<and> has_kind events (ri_id r) Response) requests)"
proof -
  let ?xs = "filter isComplete (map (attachEvents (buckets events)) requests)"
  have "list_all2 (\<lambda>r row. rs_id row = (ri_id \<circ> fst) r) ?xs rows"
    by (rule list_all2_mono [OF completeSummaries_Inr_D [OF assms]])
       (simp add: toSummary_Inr_fields(1))
  then have "map rs_id rows = map (ri_id \<circ> fst) ?xs"
    by (rule list_all2_map_eq)
  also have "\<dots> = map ri_id (map fst ?xs)"
    by simp
  finally show ?thesis
    by (simp only: complete_attached_list)
qed

lemma find_without_body:
  "find (\<lambda>e. ei_id e = i \<and> event_kind (ei_event e) = k) (without_body_events events)
     = (if is_body_kind k then None
        else find (\<lambda>e. ei_id e = i \<and> event_kind (ei_event e) = k) events)"
  by (induction events) (auto simp add: without_body_events_def)

lemma attached_without_body:
  "snd (attachEvents (buckets (without_body_events events)) r) k
     = (if is_body_kind k then None else snd (attachEvents (buckets events) r) k)"
  by (simp add: attached_lookup find_without_body)

lemma isComplete_without_body:
  "isComplete (attachEvents (buckets (without_body_events events)) r)
     = isComplete (attachEvents (buckets events) r)"
  by (simp add: isComplete_def attached_without_body is_body_kind_def)

lemma summaryOf_without_body:
  assumes "fst r' = fst r" and "snd r' Request_body = None" and "snd r' Response_body = None"
  shows "summaryOf r' request response u = clear_body_flags (summaryOf r request response u)"
  using assms by (simp add: summaryOf_def clear_body_flags_def)

lemma toSummary_without_body:
  fixes events r
  defines "a \<equiv> attachEvents (buckets events) r"
    and "a' \<equiv> attachEvents (buckets (without_body_events events)) r"
  shows "toSummary parse a' = map_sum id clear_body_flags (toSummary parse a)"
proof -
  have fst_eq: "fst a' = fst a"
    by (simp add: a_def a'_def attached_fst)
  have req: "snd a' Request = snd a Request" and resp: "snd a' Response = snd a Response"
    and nb: "snd a' Request_body = None" "snd a' Response_body = None"
    by (simp_all add: a_def a'_def attached_without_body is_body_kind_def)
  show ?thesis
  proof (cases "snd a Request")
    case None
    with req show ?thesis by (simp add: toSummary_def)
  next
    case request: (Some request)
    show ?thesis
    proof (cases "snd a Response")
      case None
      with request req resp show ?thesis by (simp add: toSummary_def)
    next
      case response: (Some response)
      show ?thesis
      proof (cases "parse (requestUrl (ei_event request))")
        case None
        have "toSummary parse a = Inl InvalidUrl"
          using request response None by (rule toSummary_None)
        moreover have "toSummary parse a' = Inl InvalidUrl"
          using request response None req resp by (simp add: toSummary_None)
        ultimately show ?thesis by simp
      next
        case (Some u)
        have "toSummary parse a = Inr (summaryOf a request response u)"
          using request response Some by (rule toSummary_Some)
        moreover have "toSummary parse a' = Inr (summaryOf a' request response u)"
          using request response Some req resp by (simp add: toSummary_Some)
        ultimately show ?thesis
          by (simp add: summaryOf_without_body [OF fst_eq nb])
      qed
    qed
  qed
qed

lemma mapM_without_body:
  "mapM (toSummary parse)
     (filter isComplete (map (attachEvents (buckets (without_body_events events))) requests))
   = map_sum id (map clear_body_flags)
      (mapM (toSummary parse)
         (filter isComplete (map (attachEvents (buckets events)) requests)))"
proof (induction requests)
  case Nil
  show ?case by simp
next
  case (Cons r requests)
  show ?case
  proof (cases "isComplete (attachEvents (buckets events) r)")
    case False
    then show ?thesis
      using Cons.IH by (simp add: isComplete_without_body)
  next
    case True
    show ?thesis
    proof (cases "toSummary parse (attachEvents (buckets events) r)")
      case (Inl e)
      with True show ?thesis
        by (simp add: isComplete_without_body toSummary_without_body)
    next
      case (Inr row)
      with True Cons.IH show ?thesis
        by (cases "mapM (toSummary parse)
              (filter isComplete (map (attachEvents (buckets events)) requests))")
           (simp_all add: isComplete_without_body toSummary_without_body)
    qed
  qed
qed

lemma completeSummaries_without_body:
  assumes "completeSummaries parse requests events = Inr rows"
  shows "completeSummaries parse requests (without_body_events events)
           = Inr (map clear_body_flags rows)"
proof -
  have ids: "\<not> has_inherited_id events"
    using assms by (rule completeSummaries_Inr_no_inherited)
  then have "\<not> has_inherited_id (without_body_events events)"
    by (rule has_inherited_id_without_body)
  with ids assms show ?thesis
    by (simp add: completeSummaries_eq mapM_without_body)
qed

lemma mapM_all_Inr:
  "(\<And>x. x \<in> set xs \<Longrightarrow> \<exists>y. f x = Inr y) \<Longrightarrow> \<exists>ys. mapM f xs = Inr ys"
proof (induction xs)
  case Nil
  show ?case by simp
next
  case (Cons a xs)
  obtain y where y: "f a = Inr y"
    using Cons.prems [of a] by auto
  have "\<exists>ys. mapM f xs = Inr ys"
    by (rule Cons.IH) (simp add: Cons.prems)
  then obtain ys where "mapM f xs = Inr ys" ..
  with y show ?case by simp
qed

lemma list_all2_set2:
  "list_all2 P xs ys \<Longrightarrow> y \<in> set ys \<Longrightarrow> \<exists>x\<in>set xs. P x y"
  by (induction rule: list_all2_induct) auto

lemma completeSummaries_succeeds:
  assumes "\<forall>e\<in>set events. event_kind (ei_event e) = Request
             \<longrightarrow> parse (requestUrl (ei_event e)) \<noteq> None"
    and ids: "\<not> has_inherited_id events"
  shows "\<exists>rows. completeSummaries parse requests events = Inr rows"
proof -
  let ?xs = "filter isComplete (map (attachEvents (buckets events)) requests)"
  have "\<exists>ys. mapM (toSummary parse) ?xs = Inr ys"
  proof (rule mapM_all_Inr)
    fix x assume "x \<in> set ?xs"
    then obtain r where x: "x = attachEvents (buckets events) r" and c: "isComplete x"
      by auto
    from c obtain request response
      where rr: "snd x Request = Some request" "snd x Response = Some response"
      by (auto simp add: isComplete_def)
    from rr(1) have "request \<in> set events \<and> event_kind (ei_event request) = Request"
      unfolding x attached_lookup by (drule_tac find_SomeD) simp
    with assms(1) obtain u where "parse (requestUrl (ei_event request)) = Some u"
      by auto
    with rr have "toSummary parse x = Inr (summaryOf x request response u)"
      by (rule toSummary_Some)
    then show "\<exists>y. toSummary parse x = Inr y" ..
  qed
  then show ?thesis
    using ids by (simp add: completeSummaries_eq)
qed

lemma completeSummaries_flags:
  assumes "completeSummaries parse requests events = Inr rows" and "row \<in> set rows"
  shows "rs_hasRequestBody row = has_kind events (rs_id row) Request_body"
    and "rs_hasResponseBody row = has_kind events (rs_id row) Response_body"
    and "\<exists>r\<in>set requests. rs_id row = ri_id r \<and> tp_point (rs_point row) = ri_point r"
proof -
  let ?xs = "filter isComplete (map (attachEvents (buckets events)) requests)"
  from list_all2_set2 [OF completeSummaries_Inr_D [OF assms(1)] assms(2)]
  obtain x where "x \<in> set ?xs" and row: "toSummary parse x = Inr row"
    by blast
  then obtain r where r: "r \<in> set requests" and x: "x = attachEvents (buckets events) r"
    by auto
  have id: "rs_id row = ri_id r"
    using toSummary_Inr_fields(1) [OF row] by (simp add: x attached_fst)
  show "rs_hasRequestBody row = has_kind events (rs_id row) Request_body"
    using toSummary_Inr_fields(3) [OF row] by (simp add: id x attached_lookup has_kind_find)
  show "rs_hasResponseBody row = has_kind events (rs_id row) Response_body"
    using toSummary_Inr_fields(4) [OF row] by (simp add: id x attached_lookup has_kind_find)
  have "tp_point (rs_point row) = ri_point r"
    using toSummary_Inr_fields(2) [OF row] by (simp add: x attached_fst)
  with r id show "\<exists>r\<in>set requests. rs_id row = ri_id r \<and> tp_point (rs_point row) = ri_point r"
    by auto
qed

lemma not_complete_without_events:
  assumes "ri_id r \<notin> ei_id ` set events"
  shows "\<not> isComplete (attachEvents (buckets events) r)"
proof
  assume "isComplete (attachEvents (buckets events) r)"
  then have "has_kind events (ri_id r) Request"
    by (simp add: isComplete_attached)
  then obtain e where "e \<in> set events" and "ei_id e = ri_id r"
    by (auto simp add: has_kind_def list_ex_iff)
  then have "ri_id r \<in> ei_id ` set events"
    by (metis imageI)
  with assms show False ..
qed

lemma completeSummaries_drop_incomplete:
  assumes "\<not> isComplete (attachEvents (buckets events) r)"
  shows "completeSummaries parse (before @ r # after) events
           = completeSummaries parse (before @ after) events"
  using assms by (simp add: completeSummaries_eq)

lemma completeSummaries_invalid_url:
  assumes r: "r \<in> set requests"
    and grouped: "eventsByRequestId events = Inr eventsMap"
    and request: "eventsToMap (get_property eventsMap (ri_id r)) Request = Some request"
    and response: "has_kind events (ri_id r) Response"
    and bad: "parse (requestUrl (ei_event request)) = None"
  shows "completeSummaries parse requests events = Inl InvalidUrl"
proof -
  let ?a = "attachEvents (buckets events)"
  let ?xs = "filter isComplete (map ?a requests)"
  have ids: "\<not> has_inherited_id events" and m: "eventsMap = buckets events"
    using grouped by (auto simp add: eventsByRequestId_eq split: if_splits)
  have req: "snd (?a r) Request = Some request"
    using request by (simp add: attachEvents_def m)
  obtain resp where resp: "snd (?a r) Response = Some resp"
    using response by (auto simp add: attached_lookup has_kind_find)
  have "isComplete (?a r)"
    using req resp by (simp add: isComplete_def)
  with r have "?a r \<in> set ?xs"
    by simp
  moreover have "toSummary parse (?a r) = Inl InvalidUrl"
    using req resp bad by (rule toSummary_None)
  moreover have "\<And>y e'. y \<in> set ?xs \<Longrightarrow> toSummary parse y = Inl e' \<Longrightarrow> e' = InvalidUrl"
    by (rule toSummary_complete_Inl) simp_all
  ultimately have "mapM (toSummary parse) ?xs = Inl InvalidUrl"
    by (rule mapM_Inl)
  then show ?thesis
    using ids by (simp add: completeSummaries_eq)
qed

section \<open>Request correlator\<close>

text \<open>
  C1, as the code has it: the stage before the type filter returns when the URL of
  every request-open event parses and no event id is the name of an inherited property,
  and whenever it returns, it returns one summary for each request record whose id has
  both a request-open and a response event among the events, in the order of the
  records, and none for any other record; in particular a record whose id has no
  response event has no summary, whatever the other records are. A body event shows in
  the two flags only: each flag says whether a body event of that kind and id exists,
  and without the body events the same summaries come out with both flags false.
\<close>

theorem summary_iff_request_and_response:
  "((\<not> has_inherited_id events
      \<and> (\<forall>e\<in>set events. event_kind (ei_event e) = Request
            \<longrightarrow> parse (requestUrl (ei_event e)) \<noteq> None))
     \<longrightarrow> (\<exists>rows. completeSummaries parse requests events = Inr rows))
   \<and> (\<forall>rows. completeSummaries parse requests events = Inr rows \<longrightarrow>
        map rs_id rows
          = map ri_id (filter (\<lambda>r. has_kind events (ri_id r) Request
                                  \<and> has_kind events (ri_id r) Response) requests)
      \<and> (\<forall>r\<in>set requests. \<not> has_kind events (ri_id r) Response \<longrightarrow> ri_id r \<notin> rs_id ` set rows)
      \<and> (\<forall>row\<in>set rows. rs_hasRequestBody row = has_kind events (rs_id row) Request_body
                         \<and> rs_hasResponseBody row = has_kind events (rs_id row) Response_body)
      \<and> completeSummaries parse requests (without_body_events events)
          = Inr (map clear_body_flags rows))"
proof (intro conjI allI impI)
  assume "\<not> has_inherited_id events
      \<and> (\<forall>e\<in>set events. event_kind (ei_event e) = Request
            \<longrightarrow> parse (requestUrl (ei_event e)) \<noteq> None)"
  then have "\<forall>e\<in>set events. event_kind (ei_event e) = Request
            \<longrightarrow> parse (requestUrl (ei_event e)) \<noteq> None" and "\<not> has_inherited_id events"
    by simp_all
  then show "\<exists>rows. completeSummaries parse requests events = Inr rows"
    by (rule completeSummaries_succeeds)
next
  fix rows
  assume rows: "completeSummaries parse requests events = Inr rows"
  show ids: "map rs_id rows
        = map ri_id (filter (\<lambda>r. has_kind events (ri_id r) Request
                                \<and> has_kind events (ri_id r) Response) requests)"
    using rows by (rule completeSummaries_ids)
  show "\<forall>r\<in>set requests. \<not> has_kind events (ri_id r) Response \<longrightarrow> ri_id r \<notin> rs_id ` set rows"
  proof (intro ballI impI notI)
    fix r :: RequestInfo
    assume "\<not> has_kind events (ri_id r) Response" and "ri_id r \<in> rs_id ` set rows"
    then have "ri_id r \<in> set (map rs_id rows)" by simp
    then show False
      using \<open>\<not> has_kind events (ri_id r) Response\<close> unfolding ids by auto
  qed
  show "\<forall>row\<in>set rows. rs_hasRequestBody row = has_kind events (rs_id row) Request_body
                       \<and> rs_hasResponseBody row = has_kind events (rs_id row) Response_body"
    using completeSummaries_flags(1,2) [OF rows] by simp
  show "completeSummaries parse requests (without_body_events events)
        = Inr (map clear_body_flags rows)"
    using rows by (rule completeSummaries_without_body)
qed

theorem summary_iff_request_and_response_witness:
  "\<exists>rows. completeSummaries plain_url (scenario_requests ''5'' ''3'') (body_1 # scenario_events) = Inr rows
     \<and> map rs_id rows = [''1'']
     \<and> map rs_hasResponseBody rows = [True]
     \<and> map rs_hasRequestBody rows = [False]
     \<and> completeSummaries plain_url (scenario_requests ''5'' ''3'')
          (without_body_events (body_1 # scenario_events)) = Inr (map clear_body_flags rows)"
proof -
  let ?events = "body_1 # scenario_events"
  let ?requests = "scenario_requests ''5'' ''3''"
  note inst = summary_iff_request_and_response [of ?events plain_url ?requests]
  have urls: "\<not> has_inherited_id ?events
      \<and> (\<forall>e\<in>set ?events. event_kind (ei_event e) = Request
                \<longrightarrow> plain_url (requestUrl (ei_event e)) \<noteq> None)"
    by code_simp
  have complete: "map ri_id (filter (\<lambda>r. has_kind ?events (ri_id r) Request
                                \<and> has_kind ?events (ri_id r) Response) ?requests) = [''1'']"
    by code_simp
  have body: "has_kind ?events ''1'' Response_body" "\<not> has_kind ?events ''1'' Request_body"
    by code_simp+
  from inst urls obtain rows where rows: "completeSummaries plain_url ?requests ?events = Inr rows"
    by blast
  from inst rows have ids: "map rs_id rows = [''1'']"
    unfolding complete by blast
  from inst rows
  have flags: "\<forall>row\<in>set rows. rs_hasRequestBody row = has_kind ?events (rs_id row) Request_body
                       \<and> rs_hasResponseBody row = has_kind ?events (rs_id row) Response_body"
    by blast
  from inst rows
  have nobody: "completeSummaries plain_url ?requests (without_body_events ?events)
        = Inr (map clear_body_flags rows)"
    by blast
  from ids obtain row where row: "rows = [row]" "rs_id row = ''1''"
    by (cases rows) auto
  with flags body have "rs_hasResponseBody row" "\<not> rs_hasRequestBody row"
    by simp_all
  with rows ids nobody row show ?thesis
    by simp
qed

text \<open>
  C1 as stated fails: request \<open>3\<close> has a request-open and a response event, and no
  summary is produced for its record, since the URL of the request-open event does not
  parse and the stage ends with the error.
\<close>

theorem complete_record_without_summary_counterexample:
  "has_kind [open_3, response_3] ''3'' Request
   \<and> has_kind [open_3, response_3] ''3'' Response
   \<and> completeSummaries plain_url [request_of ''3'' ''20''] [open_3, response_3] = Inl InvalidUrl"
  by code_simp

text \<open>
  C10, as the code has it: when no event id is the name of an inherited property, the
  grouping returns, and a request record whose id occurs in no event has no bucket;
  \<open>eventsToMap\<close> of what the lookup gives is the empty map, so the record is not a
  complete exchange. The pipeline on that record alone returns the empty list, and among
  other records it returns what it returns without the record, be it a list or an error
  of another record.
\<close>

theorem request_without_events_is_excluded:
  assumes "ri_id r \<notin> ei_id ` set events" and "\<not> has_inherited_id events"
  shows "\<exists>eventsMap. eventsByRequestId events = Inr eventsMap
    \<and> eventsMap (ri_id r) = None
    \<and> eventsToMap (get_property eventsMap (ri_id r)) = Map.empty
    \<and> \<not> isComplete (attachEvents eventsMap r)
    \<and> partialRequestsToCompleteSummaries parse [r] events types = Inr []
    \<and> partialRequestsToCompleteSummaries parse (before @ r # after) events types
        = partialRequestsToCompleteSummaries parse (before @ after) events types"
proof -
  have grouped: "eventsByRequestId events = Inr (buckets events)"
    using assms(2) by (simp add: eventsByRequestId_eq)
  have none: "buckets events (ri_id r) = None"
    using assms(1) by (simp add: buckets_eq filter_id_empty_iff)
  have empty: "eventsToMap (get_property (buckets events) (ri_id r)) = Map.empty"
    by (simp add: none eventsToMap_def keyBy_def get_property_def)
  have inc: "\<not> isComplete (attachEvents (buckets events) r)"
    using assms(1) by (rule not_complete_without_events)
  have alone: "partialRequestsToCompleteSummaries parse [r] events types = Inr []"
    using inc assms(2)
    by (simp add: partialRequestsToCompleteSummaries_def completeSummaries_eq bind_Inr)
  have "partialRequestsToCompleteSummaries parse (before @ r # after) events types
        = partialRequestsToCompleteSummaries parse (before @ after) events types"
    by (simp add: partialRequestsToCompleteSummaries_def completeSummaries_drop_incomplete [OF inc])
  with grouped none empty inc alone show ?thesis
    by (intro exI [of _ "buckets events"] conjI)
qed

theorem request_without_events_is_excluded_witness:
  "\<not> has_inherited_id scenario_events
   \<and> (\<exists>eventsMap. eventsByRequestId scenario_events = Inr eventsMap \<and> eventsMap ''9'' = None)
   \<and> partialRequestsToCompleteSummaries plain_url [request_of ''9'' ''40''] scenario_events {} = Inr []
   \<and> partialRequestsToCompleteSummaries plain_url
        ([request_of ''1'' ''5''] @ request_of ''9'' ''40'' # [request_of ''2'' ''3'']) scenario_events {}
      = partialRequestsToCompleteSummaries plain_url
        ([request_of ''1'' ''5''] @ [request_of ''2'' ''3'']) scenario_events {}"
proof -
  have absent: "ri_id (request_of ''9'' ''40'') \<notin> ei_id ` set scenario_events"
    by (simp add: request_of_def scenario_events_def open_1_def open_2_def response_1_def)
  have ids: "\<not> has_inherited_id scenario_events"
    by (simp add: has_inherited_id_def inherited_names_def scenario_events_def open_1_def
        open_2_def response_1_def)
  from request_without_events_is_excluded [OF absent ids, of plain_url "{}"
      "[request_of ''1'' ''5'']" "[request_of ''2'' ''3'']"] ids
  show ?thesis
    by (auto simp add: request_of_def)
qed

text \<open>
  C10 as stated fails: the record of request \<open>9\<close> has no event, and with the events of
  a request whose id is \<open>constructor\<close> the call ends with a \<open>TypeError\<close>.
\<close>

theorem inherited_id_counterexample:
  "list_all (\<lambda>e. ei_id e \<noteq> ''9'') constructor_events
   \<and> partialRequestsToCompleteSummaries plain_url [request_of ''9'' ''40''] constructor_events {}
       = Inl TypeError"
  by code_simp

text \<open>
  C5, as the code has it: the exception of the \<open>URL\<close> constructor is not caught. When
  the request-open event of a complete request record carries a string that does not
  parse, the whole call fails with that error and returns no summary, whatever the other
  records are.
\<close>

theorem invalid_url_aborts_batch:
  assumes "r \<in> set requests"
    and "eventsByRequestId events = Inr eventsMap"
    and "eventsToMap (get_property eventsMap (ri_id r)) Request = Some request"
    and "has_kind events (ri_id r) Response"
    and "parse (requestUrl (ei_event request)) = None"
  shows "partialRequestsToCompleteSummaries parse requests events types = Inl InvalidUrl"
proof -
  have "completeSummaries parse requests events = Inl InvalidUrl"
    using assms by (rule completeSummaries_invalid_url)
  then show ?thesis
    by (simp add: partialRequestsToCompleteSummaries_def bind_Inl)
qed

theorem invalid_url_aborts_batch_witness:
  "partialRequestsToCompleteSummaries plain_url [request_of ''1'' ''5'', request_of ''3'' ''20'']
     [open_1, response_1, open_3, response_3] {} = Inl InvalidUrl"
proof (rule invalid_url_aborts_batch [where r = "request_of ''3'' ''20''" and request = open_3
      and eventsMap = "buckets [open_1, response_1, open_3, response_3]"])
  show "request_of ''3'' ''20'' \<in> set [request_of ''1'' ''5'', request_of ''3'' ''20'']"
    by simp
  have "\<not> has_inherited_id [open_1, response_1, open_3, response_3]"
    by (simp add: has_inherited_id_def inherited_names_def open_1_def response_1_def open_3_def
        response_3_def)
  then show "eventsByRequestId [open_1, response_1, open_3, response_3]
          = Inr (buckets [open_1, response_1, open_3, response_3])"
    by (simp add: eventsByRequestId_eq)
  show "eventsToMap (get_property (buckets [open_1, response_1, open_3, response_3])
          (ri_id (request_of ''3'' ''20''))) Request = Some open_3"
    by (simp add: eventsToMap_grouped request_of_def open_1_def response_1_def open_3_def)
  show "has_kind [open_1, response_1, open_3, response_3] (ri_id (request_of ''3'' ''20'')) Response"
    by (simp add: has_kind_def request_of_def response_3_def)
  show "plain_url (requestUrl (ei_event open_3)) = None"
    by code_simp
qed

text \<open>
  C5 as stated fails: with the unparseable record in the batch the call returns the
  error and not the summary of request \<open>1\<close>, which the same events give when the record is
  left out.
\<close>

theorem invalid_url_counterexample:
  "partialRequestsToCompleteSummaries plain_url [request_of ''3'' ''20'', request_of ''1'' ''5'']
     [open_3, response_3, open_1, response_1] {} = Inl InvalidUrl
   \<and> map_sum id (map rs_id)
        (partialRequestsToCompleteSummaries plain_url [request_of ''1'' ''5'']
           [open_3, response_3, open_1, response_1] {}) = Inr [''1'']"
  by code_simp

section \<open>Facts about the point order and the sort\<close>

lemma lex_less_codes: "lex_less a b \<longleftrightarrow> codes a < codes b"
  by (induction a b rule: lex_less.induct) (simp_all add: codes_def)

lemma point_le_codes:
  "point_le a b \<longleftrightarrow> length a < length b \<or> (length a = length b \<and> codes a \<le> codes b)"
  by (simp add: point_le_def lex_less_codes not_less)

lemma point_le_trans:
  assumes "point_le a b" and "point_le b c"
  shows "point_le a c"
proof -
  from assms(1) consider "length a < length b" | "length a = length b" "codes a \<le> codes b"
    unfolding point_le_codes by blast
  then show ?thesis
  proof cases
    case 1
    moreover from assms(2) have "length b \<le> length c"
      unfolding point_le_codes by linarith
    ultimately show ?thesis
      unfolding point_le_codes by linarith
  next
    case 2
    from assms(2) consider "length b < length c" | "length b = length c" "codes b \<le> codes c"
      unfolding point_le_codes by blast
    then show ?thesis
    proof cases
      case 1
      with 2(1) show ?thesis
        unfolding point_le_codes by simp
    next
      case b: 2
      from 2(2) b(2) have "codes a \<le> codes c"
        by (rule order_trans)
      with 2(1) b(1) show ?thesis
        unfolding point_le_codes by simp
    qed
  qed
qed

lemma compareNumericStrings_valid:
  assumes "valid_point a" and "valid_point b"
  shows "\<exists>c. compareNumericStrings a b = Inr c
           \<and> (c = Greater \<longrightarrow> point_le b a) \<and> (c \<noteq> Greater \<longrightarrow> point_le a b)"
proof -
  consider "length a < length b" | "length b < length a"
    | "length a = length b" "lex_less a b"
    | "length a = length b" "\<not> lex_less a b" "lex_less b a"
    | "length a = length b" "\<not> lex_less a b" "\<not> lex_less b a"
    by linarith
  then show ?thesis
  proof cases
    case 1
    with assms show ?thesis by (simp add: compareNumericStrings_def point_le_def)
  next
    case 2
    with assms show ?thesis by (simp add: compareNumericStrings_def point_le_def)
  next
    case 3
    then have "\<not> lex_less b a"
      unfolding lex_less_codes by simp
    with 3 assms show ?thesis by (simp add: compareNumericStrings_def point_le_def)
  next
    case 4
    with assms show ?thesis by (simp add: compareNumericStrings_def point_le_def)
  next
    case 5
    with assms show ?thesis by (simp add: compareNumericStrings_def point_le_def)
  qed
qed

lemma insert_by_sorted:
  fixes k :: "'a \<Rightarrow> string"
  defines "cmp \<equiv> \<lambda>a b. compareNumericStrings (k a) (k b)"
  assumes "valid_point (k x)" and "\<forall>y\<in>set ys. valid_point (k y)"
    and "sorted_wrt (\<lambda>a b. point_le (k a) (k b)) ys"
  shows "\<exists>zs. insert_by cmp x ys = Inr zs \<and> mset zs = add_mset x (mset ys)
           \<and> sorted_wrt (\<lambda>a b. point_le (k a) (k b)) zs"
  using assms(3,4)
proof (induction ys)
  case Nil
  show ?case by simp
next
  case (Cons y ys)
  have vy: "valid_point (k y)"
    using Cons.prems(1) by simp
  from compareNumericStrings_valid [OF assms(2) vy]
  obtain c where c: "cmp x y = Inr c"
    and gt: "c = Greater \<Longrightarrow> point_le (k y) (k x)"
    and le: "c \<noteq> Greater \<Longrightarrow> point_le (k x) (k y)"
    unfolding cmp_def by blast
  show ?case
  proof (cases "c = Greater")
    case True
    have "\<exists>zs. insert_by cmp x ys = Inr zs \<and> mset zs = add_mset x (mset ys)
           \<and> sorted_wrt (\<lambda>a b. point_le (k a) (k b)) zs"
      using Cons.prems by (intro Cons.IH) simp_all
    then obtain zs where zs: "insert_by cmp x ys = Inr zs" "mset zs = add_mset x (mset ys)"
      "sorted_wrt (\<lambda>a b. point_le (k a) (k b)) zs"
      by blast
    have "set zs = insert x (set ys)"
      using zs(2) by (metis set_mset_add_mset_insert set_mset_mset)
    with zs(3) Cons.prems(2) gt [OF True]
    have "sorted_wrt (\<lambda>a b. point_le (k a) (k b)) (y # zs)"
      by simp
    with zs c True show ?thesis
      by simp
  next
    case False
    have "\<forall>z\<in>set ys. point_le (k x) (k z)"
    proof
      fix z assume "z \<in> set ys"
      with Cons.prems(2) have "point_le (k y) (k z)" by simp
      with le [OF False] show "point_le (k x) (k z)" by (rule point_le_trans)
    qed
    with le [OF False] Cons.prems(2)
    have "sorted_wrt (\<lambda>a b. point_le (k a) (k b)) (x # y # ys)"
      by simp
    with c False show ?thesis
      by simp
  qed
qed

lemma sort_by_sorted:
  fixes k :: "'a \<Rightarrow> string"
  defines "cmp \<equiv> \<lambda>a b. compareNumericStrings (k a) (k b)"
  assumes "\<forall>y\<in>set xs. valid_point (k y)"
  shows "\<exists>zs. sort_by cmp xs = Inr zs \<and> mset zs = mset xs
           \<and> sorted_wrt (\<lambda>a b. point_le (k a) (k b)) zs"
  using assms(2)
proof (induction xs)
  case Nil
  show ?case by simp
next
  case (Cons x xs)
  then obtain ys where ys: "sort_by cmp xs = Inr ys" "mset ys = mset xs"
    "sorted_wrt (\<lambda>a b. point_le (k a) (k b)) ys"
    by auto
  have "set ys = set xs"
    using ys(2) by (rule mset_eq_setD)
  with Cons.prems have "valid_point (k x)" "\<forall>y\<in>set ys. valid_point (k y)"
    by simp_all
  from insert_by_sorted [OF this ys(3)]
  obtain zs where "insert_by cmp x ys = Inr zs" "mset zs = add_mset x (mset ys)"
    "sorted_wrt (\<lambda>a b. point_le (k a) (k b)) zs"
    unfolding cmp_def by blast
  with ys show ?case
    by simp
qed

lemma foldl_digits:
  "foldl (\<lambda>n c. 10 * n + digit_value c) n s
     = n * 10 ^ length s + foldl (\<lambda>n c. 10 * n + digit_value c) 0 s"
proof (induction s arbitrary: n)
  case Nil
  show ?case by simp
next
  case (Cons c s)
  have "foldl (\<lambda>n c. 10 * n + digit_value c) n (c # s)
          = foldl (\<lambda>n c. 10 * n + digit_value c) (10 * n + digit_value c) s"
    by simp
  also have "\<dots> = (10 * n + digit_value c) * 10 ^ length s
                    + foldl (\<lambda>n c. 10 * n + digit_value c) 0 s"
    by (rule Cons.IH)
  also have "\<dots> = n * 10 ^ length (c # s)
     + (digit_value c * 10 ^ length s + foldl (\<lambda>n c. 10 * n + digit_value c) 0 s)"
    by (simp add: algebra_simps)
  also have "digit_value c * 10 ^ length s + foldl (\<lambda>n c. 10 * n + digit_value c) 0 s
       = foldl (\<lambda>n c. 10 * n + digit_value c) 0 (c # s)"
    using Cons.IH [of "digit_value c"] by simp
  finally show ?case .
qed

lemma point_value_Cons:
  "point_value (c # s) = digit_value c * 10 ^ length s + point_value s"
  using foldl_digits [of "digit_value c" s] by (simp add: point_value_def)

lemma point_value_Nil: "point_value [] = 0"
  by (simp add: point_value_def)

lemma digit_value_less: "is_digit c \<Longrightarrow> digit_value c < 10"
  unfolding is_digit_def digit_value_def by linarith

lemma point_value_less:
  "list_all is_digit s \<Longrightarrow> point_value s < 10 ^ length s"
proof (induction s)
  case Nil
  show ?case by (simp add: point_value_Nil)
next
  case (Cons c s)
  then have "digit_value c \<le> 9" and "point_value s < 10 ^ length s"
    using digit_value_less [of c] by simp_all
  then have "digit_value c * 10 ^ length s + point_value s < 9 * 10 ^ length s + 10 ^ length s"
    by (intro add_le_less_mono mult_right_mono) simp_all
  then show ?case
    by (simp add: point_value_Cons)
qed

lemma digit_code_less:
  assumes "is_digit x" and "is_digit y"
  shows "(of_char x :: nat) < of_char y \<longleftrightarrow> digit_value x < digit_value y"
  using assms unfolding is_digit_def digit_value_def by linarith

lemma digit_nonzero:
  assumes "is_digit c" and "c \<noteq> CHR ''0''"
  shows "1 \<le> digit_value c"
proof -
  have "(of_char c :: nat) \<noteq> of_char (CHR ''0'')"
    using assms(2) by (simp only: of_char_eq_iff) simp
  then have "(of_char c :: nat) \<noteq> 48"
    by simp
  with assms(1) show ?thesis
    unfolding is_digit_def digit_value_def by linarith
qed

lemma codes_le_value:
  assumes "length a = length b" and "list_all is_digit a" and "list_all is_digit b"
    and "codes a \<le> codes b"
  shows "point_value a \<le> point_value b"
  using assms
proof (induction a b rule: list_induct2)
  case Nil
  show ?case by simp
next
  case (Cons x xs y ys)
  have dx: "is_digit x" and dy: "is_digit y"
    and dxs: "list_all is_digit xs" and dys: "list_all is_digit ys"
    using Cons.prems by simp_all
  from Cons.prems(3) consider "(of_char x :: nat) < of_char y" | "x = y" "codes xs \<le> codes ys"
    by (auto simp add: codes_def)
  then show ?case
  proof cases
    case 1
    then have "digit_value x + 1 \<le> digit_value y"
      using digit_code_less [OF dx dy] by simp
    then have "(digit_value x + 1) * 10 ^ length xs \<le> digit_value y * 10 ^ length xs"
      by (rule mult_right_mono) simp
    moreover have "point_value xs < 10 ^ length xs"
      using dxs by (rule point_value_less)
    ultimately have "digit_value x * 10 ^ length xs + point_value xs
                       \<le> digit_value y * 10 ^ length xs"
      by (simp add: algebra_simps)
    then show ?thesis
      using Cons.hyps by (simp add: point_value_Cons)
  next
    case 2
    with Cons.IH dxs dys have "point_value xs \<le> point_value ys"
      by simp
    with 2(1) Cons.hyps show ?thesis
      by (simp add: point_value_Cons)
  qed
qed

lemma canonical_lower_bound:
  assumes "canonical_point s"
  shows "10 ^ (length s - 1) \<le> point_value s \<or> length s = 1"
proof (cases s)
  case Nil
  with assms show ?thesis by (simp add: canonical_point_def)
next
  case (Cons c cs)
  show ?thesis
  proof (cases "cs = []")
    case True
    with Cons show ?thesis by simp
  next
    case False
    with assms Cons have "is_digit c" and "c \<noteq> CHR ''0''"
      by (simp_all add: canonical_point_def)
    then have "1 \<le> digit_value c"
      by (rule digit_nonzero)
    then have "1 * 10 ^ length cs \<le> digit_value c * 10 ^ length cs"
      by (rule mult_right_mono) simp
    then have "10 ^ length cs \<le> digit_value c * 10 ^ length cs + point_value cs"
      by (simp only: mult_1 trans_le_add1)
    then show ?thesis
      by (simp only: Cons point_value_Cons) simp
  qed
qed

lemma canonical_digits: "canonical_point s \<Longrightarrow> list_all is_digit s \<and> s \<noteq> []"
  by (cases s) (simp_all add: canonical_point_def)

lemma canonical_valid: "canonical_point s \<Longrightarrow> valid_point s"
  using canonical_digits [of s] by (simp add: valid_point_def)

lemma point_le_value:
  assumes a: "canonical_point a" and b: "canonical_point b" and le: "point_le a b"
  shows "point_value a \<le> point_value b"
proof -
  from le consider "length a < length b" | "length a = length b" "codes a \<le> codes b"
    unfolding point_le_codes by blast
  then show ?thesis
  proof cases
    case 1
    have "a \<noteq> []"
      using canonical_digits [OF a] by simp
    then have "1 \<le> length a"
      by (cases a) simp_all
    with 1 have "length b \<noteq> 1" and "length a \<le> length b - 1"
      by linarith+
    have "point_value a < 10 ^ length a"
      using canonical_digits [OF a] by (simp add: point_value_less)
    also have "(10::nat) ^ length a \<le> 10 ^ (length b - 1)"
      using \<open>length a \<le> length b - 1\<close> by (simp add: power_increasing)
    also have "\<dots> \<le> point_value b"
      using canonical_lower_bound [OF b] \<open>length b \<noteq> 1\<close> by simp
    finally show ?thesis
      by simp
  next
    case 2
    with canonical_digits [OF a] canonical_digits [OF b] show ?thesis
      by (simp add: codes_le_value)
  qed
qed

lemma pipeline_sorted:
  assumes rows: "completeSummaries parse requests events = Inr rows"
    and valid: "\<forall>row\<in>set rows. valid_point (summary_point row)"
  shows "\<exists>out. partialRequestsToCompleteSummaries parse requests events types = Inr out
      \<and> mset out = mset (filter (type_matches types) rows)
      \<and> sorted_wrt (\<lambda>a b. point_le (summary_point a) (summary_point b)) out"
proof -
  have cmp: "comparePoints = (\<lambda>a b. compareNumericStrings (summary_point a) (summary_point b))"
    by (intro ext) (simp add: comparePoints_def summary_point_def)
  have "\<forall>row\<in>set (filter (type_matches types) rows). valid_point (summary_point row)"
    using valid by simp
  from sort_by_sorted [OF this]
  obtain out where "sort_by comparePoints (filter (type_matches types) rows) = Inr out"
    and "mset out = mset (filter (type_matches types) rows)"
    and "sorted_wrt (\<lambda>a b. point_le (summary_point a) (summary_point b)) out"
    unfolding cmp by blast
  with rows show ?thesis
    by (simp add: partialRequestsToCompleteSummaries_def bind_Inr)
qed

section \<open>Type filter and ordering\<close>







text \<open>
  C8: when the summaries before the filter are derived and their points are non-empty
  digit strings, the pipeline returns the kept summaries, each as often as it was kept,
  in ascending order of their points under the comparison by length first and by
  lexicographic order among equal lengths: a summary with a shorter point comes before
  one with a longer point. For points without leading zeros this is the ascending order
  of the numbers that the points denote. Points \<open>100\<close>, \<open>20\<close>, \<open>9\<close> come out as \<open>9\<close>, \<open>20\<close>,
  \<open>100\<close>.
\<close>

theorem output_sorted_by_point:
  assumes "completeSummaries parse requests events = Inr rows"
    and "\<forall>row\<in>set rows. valid_point (summary_point row)"
  shows "\<exists>out. partialRequestsToCompleteSummaries parse requests events types = Inr out
      \<and> mset out = mset (filter (type_matches types) rows)
      \<and> sorted_wrt (\<lambda>a b. point_le (summary_point a) (summary_point b)) out
      \<and> ((\<forall>row\<in>set rows. canonical_point (summary_point row)) \<longrightarrow>
           sorted_wrt (\<lambda>a b. point_value (summary_point a) \<le> point_value (summary_point b)) out)"
proof -
  from pipeline_sorted [OF assms, of types]
  obtain out where out: "partialRequestsToCompleteSummaries parse requests events types = Inr out"
    and perm: "mset out = mset (filter (type_matches types) rows)"
    and sorted: "sorted_wrt (\<lambda>a b. point_le (summary_point a) (summary_point b)) out"
    by blast
  have "sorted_wrt (\<lambda>a b. point_value (summary_point a) \<le> point_value (summary_point b)) out"
    if canon: "\<forall>row\<in>set rows. canonical_point (summary_point row)"
  proof (rule sorted_wrt_mono_rel [OF _ sorted])
    fix a b assume "a \<in> set out" and "b \<in> set out"
      and le: "point_le (summary_point a) (summary_point b)"
    moreover have "set out \<subseteq> set rows"
      using mset_eq_setD [OF perm] by auto
    ultimately have "canonical_point (summary_point a)" "canonical_point (summary_point b)"
      using canon by auto
    then show "point_value (summary_point a) \<le> point_value (summary_point b)"
      using le by (rule point_le_value)
  qed
  with out perm sorted show ?thesis
    by blast
qed

theorem output_sorted_by_point_witness:
  "\<exists>out. partialRequestsToCompleteSummaries plain_url three_requests three_exchanges {} = Inr out
     \<and> map summary_point out = [''9'', ''20'', ''100'']
     \<and> sorted_wrt (\<lambda>a b. point_le (summary_point a) (summary_point b)) out
     \<and> sorted_wrt (\<lambda>a b. point_value (summary_point a) \<le> point_value (summary_point b)) out"
proof -
  have "case completeSummaries plain_url three_requests three_exchanges of
          Inl e \<Rightarrow> False
        | Inr rows \<Rightarrow> list_all (\<lambda>row. canonical_point (summary_point row)) rows"
    by code_simp
  then obtain rows where rows: "completeSummaries plain_url three_requests three_exchanges = Inr rows"
    and canon: "\<forall>row\<in>set rows. canonical_point (summary_point row)"
    by (cases "completeSummaries plain_url three_requests three_exchanges")
       (simp_all add: list_all_iff)
  from canon have valid: "\<forall>row\<in>set rows. valid_point (summary_point row)"
    by (simp add: canonical_valid)
  from output_sorted_by_point [OF rows valid, of "{}"]
  obtain out where all: "partialRequestsToCompleteSummaries plain_url three_requests three_exchanges {} = Inr out
      \<and> mset out = mset (filter (type_matches {}) rows)
      \<and> sorted_wrt (\<lambda>a b. point_le (summary_point a) (summary_point b)) out
      \<and> ((\<forall>row\<in>set rows. canonical_point (summary_point row)) \<longrightarrow>
           sorted_wrt (\<lambda>a b. point_value (summary_point a) \<le> point_value (summary_point b)) out)" ..
  from all have out: "partialRequestsToCompleteSummaries plain_url three_requests three_exchanges {} = Inr out"
    by (rule conjunct1)
  from all have s1: "sorted_wrt (\<lambda>a b. point_le (summary_point a) (summary_point b)) out"
    by (elim conjE)
  from all canon
  have s2: "sorted_wrt (\<lambda>a b. point_value (summary_point a) \<le> point_value (summary_point b)) out"
    by (elim conjE impE)
  have "map_sum id (map summary_point)
          (partialRequestsToCompleteSummaries plain_url three_requests three_exchanges {})
        = Inr [''9'', ''20'', ''100'']"
    by code_simp
  with out have "map summary_point out = [''9'', ''20'', ''100'']"
    by simp
  with out s1 s2 show ?thesis
    by (intro exI [of _ out] conjI)
qed

section \<open>End-to-end scenario\<close>

lemma scenario_lookup_1:
  assumes "ri_id r = ''1''"
  shows "snd (attachEvents (buckets scenario_events) r) Request = Some open_1"
    and "snd (attachEvents (buckets scenario_events) r) Response = Some response_1"
  using assms
  by (simp_all add: attached_lookup scenario_events_def open_1_def response_1_def open_2_def)

lemma scenario_lookup_2:
  assumes "ri_id r = ''2''"
  shows "snd (attachEvents (buckets scenario_events) r) Response = None"
  using assms
  by (simp add: attached_lookup scenario_events_def open_1_def response_1_def open_2_def)

lemma scenario_derivations:
  shows "getDocumentType (responseHeaders (ei_event response_1)) = ''application/json''"
    and "deriveType ''application/json'' = ''json''"
    and "or_else (pop (filter (\<lambda>f. length f \<noteq> 0) (split_on (CHR ''/'') ''/x''))) [] = ''x''"
    and "requestUrl (ei_event open_1) = ''https://a.test/x?y=1''"
  by code_simp+

text \<open>
  C7, as the code has it: in the scenario the pipeline returns exactly one summary, for
  request \<open>1\<close>, with domain \<open>a.test\<close>, name \<open>x\<close>, the query parameter \<open>y = 1\<close>, document type
  \<open>application/json\<close> and type \<open>json\<close>. Its point is the point and time of the request
  record of request \<open>1\<close>; the points of the events are not read. The URL parser is any
  parser that decomposes the URL of the scenario as the platform does.
\<close>

theorem scenario_summary:
  assumes "parse ''https://a.test/x?y=1''
             = Some \<lparr> url_host = ''a.test'', url_pathname = ''/x'',
                      url_searchParams = [(''y'', ''1'')] \<rparr>"
    and "ri_id r1 = ''1''" and "ri_id r2 = ''2''"
  shows "\<exists>row. partialRequestsToCompleteSummaries parse [r1, r2] scenario_events {} = Inr [row]
     \<and> rs_id row = ''1'' \<and> rs_domain row = ''a.test'' \<and> rs_name row = ''x''
     \<and> rs_queryParams row = [(''y'', ''1'')]
     \<and> rs_documentType row = ''application/json'' \<and> rs_type row = ''json''
     \<and> rs_point row = \<lparr> tp_point = ri_point r1, tp_time = ri_time r1 \<rparr>"
proof -
  let ?a = "attachEvents (buckets scenario_events)"
  let ?u = "\<lparr> url_host = ''a.test'', url_pathname = ''/x'', url_searchParams = [(''y'', ''1'')] \<rparr>"
  let ?row = "summaryOf (?a r1) open_1 response_1 ?u"
  have c1: "isComplete (?a r1)"
    by (simp add: isComplete_def scenario_lookup_1 [OF assms(2)])
  have c2: "\<not> isComplete (?a r2)"
    by (simp add: isComplete_def scenario_lookup_2 [OF assms(3)])
  have "parse (requestUrl (ei_event open_1)) = Some ?u"
    using assms(1) by (simp add: scenario_derivations(4))
  with scenario_lookup_1 [OF assms(2)] have "toSummary parse (?a r1) = Inr ?row"
    by (rule toSummary_Some)
  moreover have "\<not> has_inherited_id scenario_events"
    by (simp add: has_inherited_id_def inherited_names_def scenario_events_def open_1_def
        open_2_def response_1_def)
  ultimately have "completeSummaries parse [r1, r2] scenario_events = Inr [?row]"
    using c1 c2 by (simp add: completeSummaries_eq)
  then have "partialRequestsToCompleteSummaries parse [r1, r2] scenario_events {} = Inr [?row]"
    by (simp add: partialRequestsToCompleteSummaries_def bind_Inr type_matches_def)
  moreover have "rs_id ?row = ''1''" "rs_domain ?row = ''a.test''" "rs_name ?row = ''x''"
    "rs_queryParams ?row = [(''y'', ''1'')]"
    "rs_documentType ?row = ''application/json''" "rs_type ?row = ''json''"
    "rs_point ?row = \<lparr> tp_point = ri_point r1, tp_time = ri_time r1 \<rparr>"
    by (simp_all add: summaryOf_def attached_fst assms(2) scenario_derivations or_else_def pop_def)
  ultimately show ?thesis
    by blast
qed

theorem scenario_summary_witness:
  "\<exists>row. partialRequestsToCompleteSummaries plain_url (scenario_requests ''12'' ''3'')
            scenario_events {} = Inr [row]
     \<and> rs_id row = ''1'' \<and> rs_domain row = ''a.test'' \<and> rs_name row = ''x''
     \<and> rs_queryParams row = [(''y'', ''1'')]
     \<and> rs_documentType row = ''application/json'' \<and> rs_type row = ''json''
     \<and> tp_point (rs_point row) = ''12''"
proof -
  have url: "plain_url ''https://a.test/x?y=1''
          = Some \<lparr> url_host = ''a.test'', url_pathname = ''/x'',
                   url_searchParams = [(''y'', ''1'')] \<rparr>"
    by code_simp
  have ids: "ri_id (request_of ''1'' ''12'') = ''1''" "ri_id (request_of ''2'' ''3'') = ''2''"
    by (simp_all add: request_of_def)
  have "\<exists>row. partialRequestsToCompleteSummaries plain_url
            [request_of ''1'' ''12'', request_of ''2'' ''3''] scenario_events {} = Inr [row]
     \<and> rs_id row = ''1'' \<and> rs_domain row = ''a.test'' \<and> rs_name row = ''x''
     \<and> rs_queryParams row = [(''y'', ''1'')]
     \<and> rs_documentType row = ''application/json'' \<and> rs_type row = ''json''
     \<and> rs_point row = \<lparr> tp_point = ri_point (request_of ''1'' ''12''),
                          tp_time = ri_time (request_of ''1'' ''12'') \<rparr>"
    using url ids by (rule scenario_summary)
  then show ?thesis
    by (auto simp add: scenario_requests_def request_of_def)
qed

text \<open>
  C7 as stated fails: the events of request \<open>1\<close> carry the points \<open>5\<close> and \<open>12\<close>, and with
  a request record whose point is \<open>5\<close> the point of the summary is \<open>5\<close>, not \<open>12\<close>.
\<close>

theorem scenario_point_counterexample:
  "map_sum id (map (\<lambda>row. tp_point (rs_point row)))
     (partialRequestsToCompleteSummaries plain_url (scenario_requests ''5'' ''3'') scenario_events {})
     = Inr [''5'']
   \<and> map ei_point scenario_events = [''5'', ''12'', ''3'']"
  by code_simp

end
